theory Spec2Isabelle
  imports Main
begin

section \<open>The GitHub review reporter of CodeCoach\<close>

text \<open>
  A shallow embedding of the class \<open>GitHub\<close> of \<^verbatim>\<open>src/Provider/GitHub/GitHub.ts\<close>.
  The class talks to the hosting platform through \<open>IGitHubPRService\<close> only. A run of
  \<open>report\<close> is modelled by explicit state passing: the state holds the private fields
  of the object, the adapter calls issued so far and the lines written to the logger.
  A rejected promise is the left summand of a sum type. The order in which promises
  awaited together settle is not fixed by the code; it is a parameter of the model,
  and what is proved holds for every such order.
\<close>

subsection \<open>Data\<close>

text \<open>
  Modelled from the spec: the enumeration \<open>LogSeverity\<close> and the type \<open>LogType\<close> are
  declared in \<^verbatim>\<open>Parser\<close>, outside the source at hand. The spec names the severities
  error and warning and speaks of severities outside that pair, which \<open>info\<close> stands
  for; a finding has a source file path, a line number, a severity and a message.
\<close>

datatype LogSeverity = error | warning | info

record LogType =
  source :: string
  line :: int
  severity :: LogSeverity
  msg :: string

text \<open>
  Modelled from the spec: \<open>Diff\<close> is declared in \<^verbatim>\<open>@types/PatchTypes\<close>, outside the
  source at hand. The spec describes one entry as a changed file together with the
  set of changed line numbers within it.
\<close>

record Diff =
  file_d :: string
  changedLines :: "int set"

text \<open>
  Modelled from the spec: \<open>Comment\<close> is declared in \<^verbatim>\<open>@types/CommentTypes\<close>, outside
  the source at hand. The class reads the fields \<open>text\<close>, \<open>file\<close>, \<open>line\<close>, \<open>errors\<close> and
  \<open>warnings\<close> of it; the first three carry the suffix \<open>_c\<close> here, as the field \<open>file\<close>
  of \<open>Diff\<close> carries the suffix \<open>_d\<close>.
\<close>

record Comment =
  text_c :: string
  file_c :: string
  line_c :: int
  errors :: int
  warnings :: int

text \<open>\<open>CommitStatus.success\<close> and \<open>CommitStatus.failure\<close>, the two values the class uses.\<close>

datatype CommitStatus = success | failure

text \<open>
  What \<open>listAllComments\<close> and \<open>listAllReviewComments\<close> return. The class reads \<open>id\<close>
  and the optional \<open>user\<close> with its \<open>id\<close>. Modelled from the spec: the optional flag
  \<open>isSystemGenerated\<close> is the one the spec lists for top-level comments; the class never
  reads it.
\<close>

record User =
  user_id :: int

record ExistingComment =
  comment_id :: int
  user :: "User option"
  isSystemGenerated :: "bool option"

text \<open>The value a rejected promise carries.\<close>

datatype err = Rejected string

text \<open>
  Modelled from the spec: \<open>IGitHubPRService\<close> is declared outside the source at hand and
  implemented by an external collaborator. Its operations are those the class calls,
  with the arguments it passes and the results it reads. Every operation returns a
  promise, which resolves (\<open>Inr\<close>) or rejects (\<open>Inl\<close>). Within one run each read is
  issued once, so a read is the outcome of that one call; a write is its outcome as a
  function of the arguments. The two operations whose names the class also uses for
  methods of its own carry the suffix \<open>_s\<close>.
\<close>

record IGitHubPRService =
  getLatestCommitSha :: "err + string"
  diff :: "err + Diff list"
  getCurrentUserId :: "err + int"
  listAllComments :: "err + ExistingComment list"
  listAllReviewComments :: "err + ExistingComment list"
  deleteComment :: "int \<Rightarrow> err + unit"
  deleteReviewComment :: "int \<Rightarrow> err + unit"
  createReviewComment_s :: "string \<Rightarrow> string \<Rightarrow> string \<Rightarrow> int \<Rightarrow> err + unit"
  createComment :: "string \<Rightarrow> err + unit"
  setCommitStatus_s :: "string \<Rightarrow> CommitStatus \<Rightarrow> string \<Rightarrow> err + unit"

text \<open>
  Modelled from the spec: \<open>MessageUtil\<close> is declared in \<^verbatim>\<open>utils/message.util\<close>, outside
  the source at hand. Its texts are left open by the spec and are parameters of the
  model: the overview message of the two counts, the commit description of the error
  count and the formatted message of one finding.
\<close>

record MessageUtil =
  generateOverviewMessage :: "int \<Rightarrow> int \<Rightarrow> string"
  generateCommitDescription :: "int \<Rightarrow> string"
  createMessage :: "LogType \<Rightarrow> string"

text \<open>An adapter call with its arguments.\<close>

datatype call =
    GetLatestCommitSha
  | GetDiff
  | GetCurrentUserId
  | ListAllComments
  | ListAllReviewComments
  | DeleteComment int
  | DeleteReviewComment int
  | CreateReviewComment string string string int
  | CreateComment string
  | SetCommitStatus string CommitStatus string

text \<open>A line of the logger: \<open>Log.info\<close>, \<open>Log.debug\<close> (its payload left out), \<open>Log.error\<close>.\<close>

datatype log_line = Info string | Debug string | Error string err

text \<open>The two \<open>readonly\<close> constructor parameters of the class.\<close>

record GitHub =
  prService :: IGitHubPRService
  removeOldComment :: bool

text \<open>The constructor: \<open>removeOldComment\<close> defaults to \<open>false\<close> when it is not given.\<close>

definition new_GitHub :: "IGitHubPRService \<Rightarrow> bool option \<Rightarrow> GitHub" where
  "new_GitHub svc opt =
     \<lparr>prService = svc, removeOldComment = (case opt of None \<Rightarrow> False | Some b \<Rightarrow> b)\<rparr>"

text \<open>
  The state of a run: the private fields that \<open>setup\<close> assigns, the adapter calls
  issued so far and the log. The calls are kept in batches: one batch holds the calls
  issued before one \<open>await\<close>, a single call for a plain \<open>await\<close>, all the calls handed
  to one \<open>Promise.all\<close> otherwise. The log \<open>logs\<close> is the log at the moment \<open>report\<close>
  settles; \<open>later\<close> holds the lines that promises still in flight at that moment write
  when they resolve afterwards.
\<close>

record state =
  commitId :: string
  touchedDiff :: "Diff list"
  comments :: "Comment list"
  nWarning :: int
  nError :: int
  trace :: "call list list"
  logs :: "log_line list"
  later :: "log_line list"

text \<open>A fresh object: nothing issued, nothing logged, the fields not yet assigned.\<close>

definition fresh :: state where
  "fresh = \<lparr>commitId = [], touchedDiff = [], comments = [], nWarning = 0, nError = 0,
             trace = [], logs = [], later = []\<rparr>"

subsection \<open>The filters and the grouper\<close>

text \<open>
  Modelled from the spec: \<open>onlySeverity\<close> and \<open>onlyIn\<close> are declared in
  \<^verbatim>\<open>utils/filter.util\<close>, outside the source at hand. The spec: a finding is retained
  iff its severity is one of those given and its (file, line) appears inside some
  entry's changed-line set.
\<close>

definition onlySeverity :: "LogSeverity list \<Rightarrow> LogType \<Rightarrow> bool" where
  "onlySeverity sevs l = (severity l \<in> set sevs)"

definition onlyIn :: "Diff list \<Rightarrow> LogType \<Rightarrow> bool" where
  "onlyIn diffs l = list_ex (\<lambda>d. file_d d = source l \<and> line l \<in> changedLines d) diffs"

text \<open>
  Modelled from the spec: \<open>groupComments\<close> is declared in \<^verbatim>\<open>utils/commentUtil\<close>,
  outside the source at hand. The spec: findings are grouped by exact (file, line)
  equality; a group counts its errors and its warnings; its text is the formatted
  concatenation of the messages in first-seen order; the first occurrence of a
  (file, line) pair fixes the position of the group; no group is made of no finding.
  The format of one message is the parameter \<open>createMessage\<close>.
\<close>

definition newComment :: "MessageUtil \<Rightarrow> LogType \<Rightarrow> Comment" where
  "newComment mu l =
     \<lparr>text_c = createMessage mu l, file_c = source l, line_c = line l,
      errors = (if severity l = error then 1 else 0),
      warnings = (if severity l = warning then 1 else 0)\<rparr>"

definition updateComment :: "MessageUtil \<Rightarrow> Comment \<Rightarrow> LogType \<Rightarrow> Comment" where
  "updateComment mu c l =
     c\<lparr>text_c := text_c c @ createMessage mu l,
       errors := errors c + (if severity l = error then 1 else 0),
       warnings := warnings c + (if severity l = warning then 1 else 0)\<rparr>"

fun addLog :: "MessageUtil \<Rightarrow> Comment list \<Rightarrow> LogType \<Rightarrow> Comment list" where
  "addLog mu [] l = [newComment mu l]"
| "addLog mu (c # cs) l =
     (if file_c c = source l \<and> line_c c = line l then updateComment mu c l # cs
      else c # addLog mu cs l)"

definition groupComments :: "MessageUtil \<Rightarrow> LogType list \<Rightarrow> Comment list" where
  "groupComments mu ls = foldl (addLog mu) [] ls"

subsection \<open>Promises\<close>

text \<open>How a promise settles: \<open>None\<close> when it resolves, the error when it rejects.\<close>

definition rejected :: "err + 'a \<Rightarrow> err option" where
  "rejected p = (case p of Inl e \<Rightarrow> Some e | Inr _ \<Rightarrow> None)"

text \<open>
  The code does not fix the order in which the promises of a batch settle: that is up
  to the platform and the network. The timing of a run is therefore a parameter of
  the model. For a batch of calls, \<open>settle\<close> gives the order in which its promises
  settle, as a list of positions in the batch, and \<open>seen\<close> gives how many of them have
  settled when a function that awaits the batch resumes after a rejection.
\<close>

record timing =
  settle :: "call list \<Rightarrow> nat list"
  seen :: "call list \<Rightarrow> nat"

text \<open>
  Every list of numbers is read as an order of the \<open>n\<close> positions of a batch:
  repetitions and numbers out of range are dropped, and the positions it leaves out
  come last, in the order of issue. So every order of settling is the reading of some
  list, and every list has a reading.
\<close>

definition settleOrder :: "nat list \<Rightarrow> nat \<Rightarrow> nat list" where
  "settleOrder ord n = [i \<leftarrow> remdups ord. i < n] @ [i \<leftarrow> [0..<n]. i \<notin> set ord]"

text \<open>The first rejection along an order of settling.\<close>

fun firstSettled :: "err option list \<Rightarrow> nat list \<Rightarrow> err option" where
  "firstSettled rs [] = None"
| "firstSettled rs (i # js) = (case rs ! i of Some e \<Rightarrow> Some e | None \<Rightarrow> firstSettled rs js)"

text \<open>
  \<open>Promise.all\<close> rejects with the rejection of the promise that is the first to
  reject, in the order of settling, and resolves with all the values when none
  rejects.
\<close>

definition Promise_all :: "nat list \<Rightarrow> (err + 'a) list \<Rightarrow> err + 'a list" where
  "Promise_all ord ps =
     (case firstSettled (map rejected ps) (settleOrder ord (length ps)) of
        Some e \<Rightarrow> Inl e
      | None \<Rightarrow> Inr (List.map_filter (\<lambda>p. case p of Inl _ \<Rightarrow> None | Inr v \<Rightarrow> Some v) ps))"

text \<open>
  How many promises of a batch have settled when the function that awaits the batch
  resumes: all of them when none rejects; otherwise at least those up to the first
  rejection, and as many more as the timing says.
\<close>

definition resumeAt :: "err option list \<Rightarrow> nat list \<Rightarrow> nat \<Rightarrow> nat" where
  "resumeAt rs ord k =
     (case firstSettled rs ord of
        None \<Rightarrow> length ord
      | Some _ \<Rightarrow> max (Suc (length (takeWhile (\<lambda>i. rs ! i = None) ord))) (min k (length ord)))"

text \<open>Issuing one batch of calls, and writing one line to the log.\<close>

definition issue :: "call list \<Rightarrow> state \<Rightarrow> state" where
  "issue cs s = s\<lparr>trace := trace s @ [cs]\<rparr>"

definition say :: "log_line \<Rightarrow> state \<Rightarrow> state" where
  "say l s = s\<lparr>logs := logs s @ [l]\<rparr>"

subsection \<open>The methods of the class\<close>

text \<open>
  The method \<open>setup\<close> (here \<open>setup_gh\<close>): two awaited reads, one after the other, then
  the two filters, the grouper and the two sums, all stored in the fields.
\<close>

definition touchedFileLog :: "LogType list \<Rightarrow> Diff list \<Rightarrow> LogType list" where
  "touchedFileLog ls diffs = filter (onlyIn diffs) (filter (onlySeverity [error, warning]) ls)"

definition setup_gh :: "MessageUtil \<Rightarrow> GitHub \<Rightarrow> LogType list \<Rightarrow> state \<Rightarrow> (err + unit) \<times> state" where
  "setup_gh mu this ls s =
     (let s1 = issue [GetLatestCommitSha] s in
      (case getLatestCommitSha (prService this) of
        Inl e \<Rightarrow> (Inl e, s1)
      | Inr sha \<Rightarrow>
         (let s2 = issue [GetDiff] (s1\<lparr>commitId := sha\<rparr>) in
          (case diff (prService this) of
            Inl e \<Rightarrow> (Inl e, s2)
          | Inr d \<Rightarrow>
             (let cs = groupComments mu (touchedFileLog ls d);
                  s3 = s2\<lparr>touchedDiff := d, comments := cs,
                          nError := foldl (\<lambda>sum comment. sum + errors comment) 0 cs,
                          nWarning := foldl (\<lambda>sum comment. sum + warnings comment) 0 cs\<rparr>
              in (Inr (), say (Debug ''VCS Setup'') s3))))))"

text \<open>
  \<open>createReviewComment\<close>: the call one comment issues, and how its promise settles.
  The debug line is written when the promise resolves.
\<close>

definition createReviewComment_call :: "state \<Rightarrow> Comment \<Rightarrow> call" where
  "createReviewComment_call s c = CreateReviewComment (commitId s) (text_c c) (file_c c) (line_c c)"

definition createReviewComment :: "GitHub \<Rightarrow> state \<Rightarrow> Comment \<Rightarrow> err + Comment" where
  "createReviewComment this s c =
     (case createReviewComment_s (prService this) (commitId s) (text_c c) (file_c c) (line_c c) of
        Inl e \<Rightarrow> Inl e
      | Inr _ \<Rightarrow> Inr c)"

text \<open>
  The joint wait over the comments: every call is issued while the list is mapped.
  Each promise that resolves writes its debug line when it settles: before \<open>report\<close>
  resumes if it is among the promises settled by then, afterwards if not.
\<close>

definition createReviewComments :: "timing \<Rightarrow> GitHub \<Rightarrow> state \<Rightarrow> (err + Comment list) \<times> state" where
  "createReviewComments tm this s =
     (let batch = map (createReviewComment_call s) (comments s);
          ps = map (createReviewComment this s) (comments s);
          ord = settleOrder (settle tm batch) (length ps);
          n = resumeAt (map rejected ps) ord (seen tm batch);
          s1 = issue batch s;
          s2 = s1\<lparr>logs := logs s1 @
                    map (\<lambda>i. Debug ''GitHub create review success'')
                      [i \<leftarrow> take n ord. \<not> isl (ps ! i)],
                  later := later s1 @
                    map (\<lambda>i. Debug ''GitHub create review success'')
                      [i \<leftarrow> drop n ord. \<not> isl (ps ! i)]\<rparr>
      in (Promise_all (settle tm batch) ps, s2))"

definition createSummaryComment :: "MessageUtil \<Rightarrow> GitHub \<Rightarrow> state \<Rightarrow> (err + unit) \<times> state" where
  "createSummaryComment mu this s =
     (if nWarning s + nError s > 0 then
        (let overview = generateOverviewMessage mu (nError s) (nWarning s);
             s1 = issue [CreateComment overview] s in
         (case createComment (prService this) overview of
           Inl e \<Rightarrow> (Inl e, s1)
         | Inr _ \<Rightarrow> (Inr (), say (Info ''Create summary comment completed'') s1)))
      else (Inr (), say (Info ''No summary comment needed'') s))"

definition setCommitStatus :: "MessageUtil \<Rightarrow> GitHub \<Rightarrow> state \<Rightarrow> (err + unit) \<times> state" where
  "setCommitStatus mu this s =
     (let commitStatus = (if nError s > 0 then failure else success);
          description = generateCommitDescription mu (nError s);
          s1 = issue [SetCommitStatus (commitId s) commitStatus description] s in
      (case setCommitStatus_s (prService this) (commitId s) commitStatus description of
        Inl e \<Rightarrow> (Inl e, s1)
      | Inr _ \<Rightarrow> (Inr (), s1)))"

text \<open>
  \<open>removeExistingComments\<close>: the three reads are issued together and awaited jointly;
  then one delete per comment and per review whose optional author has the id of the
  current user, all issued together and awaited jointly. \<open>comment.user?.id\<close> is
  \<open>undefined\<close> when \<open>user\<close> is absent, and \<open>undefined === userId\<close> is false. The three
  reads have results of three types, so their joint wait is written out: the first
  rejection in the order of settling if there is one, the three values otherwise
  (then none of the three is a rejection, and the inner \<open>Inl\<close> branches are never
  taken).
\<close>

definition authoredBy :: "int \<Rightarrow> ExistingComment \<Rightarrow> bool" where
  "authoredBy userId c = (case user c of None \<Rightarrow> False | Some u \<Rightarrow> user_id u = userId)"

definition removeExistingComments :: "timing \<Rightarrow> GitHub \<Rightarrow> state \<Rightarrow> (err + unit) \<times> state" where
  "removeExistingComments tm this s =
     (let reads = [GetCurrentUserId, ListAllComments, ListAllReviewComments];
          s1 = issue reads s in
      (case firstSettled
              [rejected (getCurrentUserId (prService this)),
               rejected (listAllComments (prService this)),
               rejected (listAllReviewComments (prService this))]
              (settleOrder (settle tm reads) (length reads)) of
        Some e \<Rightarrow> (Inl e, s1)
      | None \<Rightarrow>
      (case getCurrentUserId (prService this) of
        Inl e \<Rightarrow> (Inl e, s1)
      | Inr userId \<Rightarrow>
      (case listAllComments (prService this) of
        Inl e \<Rightarrow> (Inl e, s1)
      | Inr cmts \<Rightarrow>
      (case listAllReviewComments (prService this) of
        Inl e \<Rightarrow> (Inl e, s1)
      | Inr reviews \<Rightarrow>
         (let s2 = say (Debug ''Get existing CodeCoach comments completed'') s1;
              mine = filter (authoredBy userId) cmts;
              mineR = filter (authoredBy userId) reviews;
              deleteComments = map (\<lambda>c. deleteComment (prService this) (comment_id c)) mine;
              deleteReviews = map (\<lambda>r. deleteReviewComment (prService this) (comment_id r)) mineR;
              deletes = map (\<lambda>c. DeleteComment (comment_id c)) mine @
                        map (\<lambda>r. DeleteReviewComment (comment_id r)) mineR;
              s3 = issue deletes s2
          in (case Promise_all (settle tm deletes) (deleteComments @ deleteReviews) of
               Inl e \<Rightarrow> (Inl e, s3)
             | Inr _ \<Rightarrow> (Inr (), say (Debug ''Delete CodeCoach comments completed'') s3))))))))"

text \<open>
  \<open>report\<close>: the body of the \<open>try\<close> block runs the steps one after the other and stops
  at the first rejection; the \<open>catch\<close> block logs the error and throws it again; a run
  that passes the \<open>try\<close> block returns \<open>true\<close>.
\<close>

definition report_try ::
  "timing \<Rightarrow> MessageUtil \<Rightarrow> GitHub \<Rightarrow> LogType list \<Rightarrow> state \<Rightarrow> (err + unit) \<times> state" where
  "report_try tm mu this ls s =
     (case setup_gh mu this ls s of
        (Inl e, s1) \<Rightarrow> (Inl e, s1)
      | (Inr _, s1) \<Rightarrow>
     (case (if removeOldComment this then removeExistingComments tm this s1 else (Inr (), s1)) of
        (Inl e, s2) \<Rightarrow> (Inl e, s2)
      | (Inr _, s2) \<Rightarrow>
     (case createReviewComments tm this s2 of
        (Inl e, s3) \<Rightarrow> (Inl e, s3)
      | (Inr _, s3) \<Rightarrow>
     (case createSummaryComment mu this s3 of
        (Inl e, s4) \<Rightarrow> (Inl e, s4)
      | (Inr _, s4) \<Rightarrow>
     (case setCommitStatus mu this s4 of
        (Inl e, s5) \<Rightarrow> (Inl e, s5)
      | (Inr _, s5) \<Rightarrow> (Inr (), say (Info ''Report commit status completed'') s5))))))"

definition report ::
  "timing \<Rightarrow> MessageUtil \<Rightarrow> GitHub \<Rightarrow> LogType list \<Rightarrow> state \<Rightarrow> (err + bool) \<times> state" where
  "report tm mu this ls s =
     (case report_try tm mu this ls s of
        (Inl e, s1) \<Rightarrow> (Inl e, say (Error ''GitHub report failed'' e) s1)
      | (Inr _, s1) \<Rightarrow> (Inr True, s1))"

subsection \<open>Reading a run\<close>

text \<open>
  How a call settles at the service: \<open>None\<close> when its promise resolves, the error
  when it rejects.
\<close>

fun rejection :: "IGitHubPRService \<Rightarrow> call \<Rightarrow> err option" where
  "rejection svc GetLatestCommitSha = rejected (getLatestCommitSha svc)"
| "rejection svc GetDiff = rejected (diff svc)"
| "rejection svc GetCurrentUserId = rejected (getCurrentUserId svc)"
| "rejection svc ListAllComments = rejected (listAllComments svc)"
| "rejection svc ListAllReviewComments = rejected (listAllReviewComments svc)"
| "rejection svc (DeleteComment i) = rejected (deleteComment svc i)"
| "rejection svc (DeleteReviewComment i) = rejected (deleteReviewComment svc i)"
| "rejection svc (CreateReviewComment sha t f n) = rejected (createReviewComment_s svc sha t f n)"
| "rejection svc (CreateComment t) = rejected (createComment svc t)"
| "rejection svc (SetCommitStatus sha st d) = rejected (setCommitStatus_s svc sha st d)"

text \<open>
  The first rejection among the calls of a batch in the order of issue. It tells
  whether some call of the batch rejects; which rejection a joint wait yields is told
  by \<open>raceRejection\<close>: the first one in the order of settling that the timing gives.
\<close>

fun firstRejection :: "IGitHubPRService \<Rightarrow> call list \<Rightarrow> err option" where
  "firstRejection svc [] = None"
| "firstRejection svc (c # cs) =
     (case rejection svc c of Some e \<Rightarrow> Some e | None \<Rightarrow> firstRejection svc cs)"

definition raceRejection :: "timing \<Rightarrow> IGitHubPRService \<Rightarrow> call list \<Rightarrow> err option" where
  "raceRejection tm svc b =
     firstSettled (map (rejection svc) b) (settleOrder (settle tm b) (length b))"

text \<open>
  The phase a call belongs to: 0 for the two reads of \<open>setup\<close>, 1 for the removal of
  old comments, 2 for the inline comments, 3 for the summary comment, 4 for the
  commit status.
\<close>

fun phase :: "call \<Rightarrow> nat" where
  "phase GetLatestCommitSha = 0"
| "phase GetDiff = 0"
| "phase GetCurrentUserId = 1"
| "phase ListAllComments = 1"
| "phase ListAllReviewComments = 1"
| "phase (DeleteComment i) = 1"
| "phase (DeleteReviewComment i) = 1"
| "phase (CreateReviewComment sha t f n) = 2"
| "phase (CreateComment t) = 3"
| "phase (SetCommitStatus sha st d) = 4"

fun isDelete :: "call \<Rightarrow> bool" where
  "isDelete (DeleteComment i) = True"
| "isDelete (DeleteReviewComment i) = True"
| "isDelete c = False"

text \<open>All the calls of a run, in the order of issue.\<close>

definition calls :: "state \<Rightarrow> call list" where
  "calls s = concat (trace s)"

subsection \<open>The batches of a run\<close>

text \<open>
  The batches a run gets to issue out of a list of batches: each batch is issued once
  the one before it has resolved in full, and nothing is issued after a batch with a
  rejection.
\<close>

fun cut :: "IGitHubPRService \<Rightarrow> call list list \<Rightarrow> call list list" where
  "cut svc [] = []"
| "cut svc (b # bs) = (if firstRejection svc b = None then b # cut svc bs else [b])"

text \<open>
  How a list of batches ends: with no rejection when every call resolves, and
  otherwise with the rejection that the joint wait over the last batch issued yields.
\<close>

definition settled :: "timing \<Rightarrow> IGitHubPRService \<Rightarrow> call list list \<Rightarrow> err option" where
  "settled tm svc A =
     (if firstRejection svc (concat A) = None then None
      else raceRejection tm svc (last (cut svc A)))"

text \<open>One \<open>await\<close> after another: the second step runs when the first has resolved.\<close>

definition andThen :: "(err + 'a) \<times> state \<Rightarrow> (state \<Rightarrow> (err + 'b) \<times> state) \<Rightarrow> (err + 'b) \<times> state" where
  "andThen m f = (case m of (Inl e, s) \<Rightarrow> (Inl e, s) | (Inr _, s) \<Rightarrow> f s)"

text \<open>
  What \<open>setup\<close> assigns to the fields when its two reads resolve, as a function of
  the service and the findings.
\<close>

definition shaOf :: "IGitHubPRService \<Rightarrow> string" where
  "shaOf svc = (case getLatestCommitSha svc of Inl _ \<Rightarrow> [] | Inr x \<Rightarrow> x)"

definition diffOf :: "IGitHubPRService \<Rightarrow> Diff list" where
  "diffOf svc = (case diff svc of Inl _ \<Rightarrow> [] | Inr x \<Rightarrow> x)"

definition commentsOf :: "MessageUtil \<Rightarrow> IGitHubPRService \<Rightarrow> LogType list \<Rightarrow> Comment list" where
  "commentsOf mu svc ls = groupComments mu (touchedFileLog ls (diffOf svc))"

definition nErrorOf :: "MessageUtil \<Rightarrow> IGitHubPRService \<Rightarrow> LogType list \<Rightarrow> int" where
  "nErrorOf mu svc ls = foldl (\<lambda>sum comment. sum + errors comment) 0 (commentsOf mu svc ls)"

definition nWarningOf :: "MessageUtil \<Rightarrow> IGitHubPRService \<Rightarrow> LogType list \<Rightarrow> int" where
  "nWarningOf mu svc ls = foldl (\<lambda>sum comment. sum + warnings comment) 0 (commentsOf mu svc ls)"

text \<open>The fields hold what \<open>setup\<close> assigns, provided its two reads resolve.\<close>

definition prepared :: "MessageUtil \<Rightarrow> IGitHubPRService \<Rightarrow> LogType list \<Rightarrow> state \<Rightarrow> bool" where
  "prepared mu svc ls s \<longleftrightarrow>
     (rejected (getLatestCommitSha svc) = None \<and> rejected (diff svc) = None \<longrightarrow>
        commitId s = shaOf svc \<and> touchedDiff s = diffOf svc \<and> comments s = commentsOf mu svc ls \<and>
        nError s = nErrorOf mu svc ls \<and> nWarning s = nWarningOf mu svc ls)"

text \<open>
  A step \<open>m\<close> that starts with the batches \<open>t\<close> issued follows the batches \<open>A\<close>: it
  issues them one by one up to the first batch with a rejection, and the rejection
  that batch yields is its result.
\<close>

definition follows ::
  "timing \<Rightarrow> MessageUtil \<Rightarrow> IGitHubPRService \<Rightarrow> LogType list \<Rightarrow> call list list \<Rightarrow>
     (err + 'a) \<times> state \<Rightarrow> call list list \<Rightarrow> bool" where
  "follows tm mu svc ls t m A \<longleftrightarrow>
     rejected (fst m) = settled tm svc A \<and> trace (snd m) = t @ cut svc A \<and>
     prepared mu svc ls (snd m)"

text \<open>
  The batches of a run in which nothing rejects, step by step: the deletes, the
  inline comments, the summary comment, the commit status.
\<close>

definition deleteCalls :: "int \<Rightarrow> ExistingComment list \<Rightarrow> ExistingComment list \<Rightarrow> call list" where
  "deleteCalls userId cmts reviews =
     map (\<lambda>c. DeleteComment (comment_id c)) (filter (authoredBy userId) cmts) @
     map (\<lambda>r. DeleteReviewComment (comment_id r)) (filter (authoredBy userId) reviews)"

definition plannedDeletes :: "IGitHubPRService \<Rightarrow> call list" where
  "plannedDeletes svc =
     (case getCurrentUserId svc of Inl _ \<Rightarrow> [] | Inr userId \<Rightarrow>
      (case listAllComments svc of Inl _ \<Rightarrow> [] | Inr cmts \<Rightarrow>
       (case listAllReviewComments svc of Inl _ \<Rightarrow> [] | Inr reviews \<Rightarrow>
          deleteCalls userId cmts reviews)))"

definition removalPlan :: "GitHub \<Rightarrow> call list list" where
  "removalPlan this =
     (if removeOldComment this
      then [[GetCurrentUserId, ListAllComments, ListAllReviewComments],
            plannedDeletes (prService this)]
      else [])"

definition inlinePlan :: "MessageUtil \<Rightarrow> IGitHubPRService \<Rightarrow> LogType list \<Rightarrow> call list list" where
  "inlinePlan mu svc ls =
     [map (\<lambda>c. CreateReviewComment (shaOf svc) (text_c c) (file_c c) (line_c c))
        (commentsOf mu svc ls)]"

definition summaryPlan :: "MessageUtil \<Rightarrow> IGitHubPRService \<Rightarrow> LogType list \<Rightarrow> call list list" where
  "summaryPlan mu svc ls =
     (if nWarningOf mu svc ls + nErrorOf mu svc ls > 0
      then [[CreateComment (generateOverviewMessage mu (nErrorOf mu svc ls) (nWarningOf mu svc ls))]]
      else [])"

definition statusPlan :: "MessageUtil \<Rightarrow> IGitHubPRService \<Rightarrow> LogType list \<Rightarrow> call list list" where
  "statusPlan mu svc ls =
     [[SetCommitStatus (shaOf svc) (if nErrorOf mu svc ls > 0 then failure else success)
         (generateCommitDescription mu (nErrorOf mu svc ls))]]"

definition plan :: "MessageUtil \<Rightarrow> GitHub \<Rightarrow> LogType list \<Rightarrow> call list list" where
  "plan mu this ls =
     [[GetLatestCommitSha], [GetDiff]] @ removalPlan this @ inlinePlan mu (prService this) ls @
     summaryPlan mu (prService this) ls @ statusPlan mu (prService this) ls"

subsection \<open>Example inputs\<close>

text \<open>
  The scenario of the spec: an error and a warning on touched lines, an error and a
  warning on untouched lines; a service in which every call resolves, with old
  comments of the current user (id 7), of another user and without author; a service
  whose inline comments are all rejected; a service that rejects the inline comment
  of line 10 and accepts the others; and a service that rejects the inline comment of
  line 10 with one error and that of line 11 with another. Three timings: in the first
  the promises of a batch settle in the order of issue and \<open>report\<close> resumes at the
  first rejection; in the second the second promise of a batch settles before the
  first and both have settled when \<open>report\<close> resumes; in the third they settle in the
  order of issue and two have settled when \<open>report\<close> resumes.
\<close>

definition exampleMessages :: MessageUtil where
  "exampleMessages =
     \<lparr>generateOverviewMessage = (\<lambda>e w. ''overview''),
      generateCommitDescription = (\<lambda>e. if e > 0 then ''errors found'' else ''no error''),
      createMessage = msg\<rparr>"

definition touchFileError :: LogType where
  "touchFileError = \<lparr>source = ''a.ts'', line = 10, severity = error, msg = ''e1''\<rparr>"

definition touchFileWarning :: LogType where
  "touchFileWarning = \<lparr>source = ''a.ts'', line = 11, severity = warning, msg = ''w1''\<rparr>"

definition untouchedError :: LogType where
  "untouchedError = \<lparr>source = ''b.ts'', line = 1, severity = error, msg = ''e2''\<rparr>"

definition untouchedWarning :: LogType where
  "untouchedWarning = \<lparr>source = ''a.ts'', line = 30, severity = warning, msg = ''w2''\<rparr>"

definition mockTouchDiff :: Diff where
  "mockTouchDiff = \<lparr>file_d = ''a.ts'', changedLines = {10, 11}\<rparr>"

definition mockComments :: "ExistingComment list" where
  "mockComments =
     [\<lparr>comment_id = 1, user = Some \<lparr>user_id = 7\<rparr>, isSystemGenerated = Some True\<rparr>,
      \<lparr>comment_id = 2, user = Some \<lparr>user_id = 7\<rparr>, isSystemGenerated = Some False\<rparr>,
      \<lparr>comment_id = 3, user = Some \<lparr>user_id = 99\<rparr>, isSystemGenerated = None\<rparr>,
      \<lparr>comment_id = 4, user = None, isSystemGenerated = None\<rparr>]"

definition mockReviews :: "ExistingComment list" where
  "mockReviews =
     [\<lparr>comment_id = 5, user = Some \<lparr>user_id = 7\<rparr>, isSystemGenerated = None\<rparr>,
      \<lparr>comment_id = 6, user = None, isSystemGenerated = None\<rparr>]"

definition serviceMock :: IGitHubPRService where
  "serviceMock =
     \<lparr>getLatestCommitSha = Inr ''sha'',
      diff = Inr [mockTouchDiff],
      getCurrentUserId = Inr 7,
      listAllComments = Inr mockComments,
      listAllReviewComments = Inr mockReviews,
      deleteComment = (\<lambda>i. Inr ()),
      deleteReviewComment = (\<lambda>i. Inr ()),
      createReviewComment_s = (\<lambda>sha t f n. Inr ()),
      createComment = (\<lambda>t. Inr ()),
      setCommitStatus_s = (\<lambda>sha st d. Inr ())\<rparr>"

definition failingMock :: IGitHubPRService where
  "failingMock = serviceMock\<lparr>createReviewComment_s := (\<lambda>sha t f n. Inl (Rejected ''no network''))\<rparr>"

definition halfFailingMock :: IGitHubPRService where
  "halfFailingMock =
     serviceMock\<lparr>createReviewComment_s :=
       (\<lambda>sha t f n. if n = 10 then Inl (Rejected ''no network'') else Inr ())\<rparr>"

definition racingMock :: IGitHubPRService where
  "racingMock =
     serviceMock\<lparr>createReviewComment_s :=
       (\<lambda>sha t f n. if n = 10 then Inl (Rejected ''slow'') else Inl (Rejected ''fast''))\<rparr>"

definition inIssueOrder :: timing where
  "inIssueOrder = \<lparr>settle = (\<lambda>b. []), seen = (\<lambda>b. 0)\<rparr>"

definition secondFirst :: timing where
  "secondFirst = \<lparr>settle = (\<lambda>b. [1, 0]), seen = (\<lambda>b. 2)\<rparr>"

definition allSeen :: timing where
  "allSeen = \<lparr>settle = (\<lambda>b. []), seen = (\<lambda>b. 2)\<rparr>"

definition touchFileInfo :: LogType where
  "touchFileInfo = \<lparr>source = ''a.ts'', line = 10, severity = info, msg = ''i1''\<rparr>"

text \<open>The runs of the scenarios: all four findings, and the two untouched findings only.\<close>

definition fullRun :: "(err + bool) \<times> state" where
  "fullRun = report inIssueOrder exampleMessages (new_GitHub serviceMock (Some True))
     [touchFileError, touchFileWarning, untouchedError, untouchedWarning] fresh"

definition quietRun :: "(err + bool) \<times> state" where
  "quietRun = report inIssueOrder exampleMessages (new_GitHub serviceMock (Some True))
     [untouchedError, untouchedWarning] fresh"

section \<open>The course of a run\<close>

subsection \<open>Rejections and batches\<close>

lemma firstRejection_append:
  "firstRejection svc (xs @ ys) =
     (case firstRejection svc xs of Some e \<Rightarrow> Some e | None \<Rightarrow> firstRejection svc ys)"
  by (induction xs) (auto split: option.splits)

lemma firstRejection_None_iff:
  "firstRejection svc cs = None \<longleftrightarrow> (\<forall>c\<in>set cs. rejection svc c = None)"
  by (induction cs) (auto split: option.splits)

lemma cut_append:
  "cut svc (A @ B) = (if firstRejection svc (concat A) = None then A @ cut svc B else cut svc A)"
  by (induction A) (auto simp: firstRejection_append split: option.splits)

lemma cut_resolved: "firstRejection svc (concat A) = None \<Longrightarrow> cut svc A = A"
  using cut_append [of svc A "[]"] by simp

lemma firstRejection_cut:
  "firstRejection svc (concat (cut svc A)) = firstRejection svc (concat A)"
  by (induction A) (auto simp: firstRejection_append split: option.splits)

lemma cut_butlast:
  "b \<in> set (butlast (cut svc A)) \<Longrightarrow> firstRejection svc b = None"
  by (induction A) (auto split: if_splits)

lemma cut_last:
  "firstRejection svc (concat A) = Some e \<Longrightarrow>
     cut svc A \<noteq> [] \<and> firstRejection svc (last (cut svc A)) = Some e"
  by (induction A) (auto simp: firstRejection_append split: option.splits if_splits)

lemma cut_take: "\<exists>n. cut svc A = take n A"
proof (induction A)
  case Nil
  then show ?case by simp
next
  case (Cons b A)
  then obtain n where n: "cut svc A = take n A" by blast
  show ?case
  proof (cases "firstRejection svc b = None")
    case True
    then have "cut svc (b # A) = take (Suc n) (b # A)" using n by simp
    then show ?thesis by blast
  next
    case False
    then obtain e where "firstRejection svc b = Some e" by auto
    then have "cut svc (b # A) = take (Suc 0) (b # A)" by simp
    then show ?thesis by blast
  qed
qed

lemma rejected_simps [simp]: "rejected (Inl e) = Some e" "rejected (Inr v) = None"
  by (simp_all add: rejected_def)

subsection \<open>The order of settling\<close>

lemma set_settleOrder: "set (settleOrder ord n) = {..<n}"
  by (auto simp: settleOrder_def)

lemma firstSettled_None_iff: "firstSettled rs js = None \<longleftrightarrow> (\<forall>i\<in>set js. rs ! i = None)"
  by (induction js) (auto split: option.splits)

lemma firstSettled_Some: "firstSettled rs js = Some e \<Longrightarrow> \<exists>i\<in>set js. rs ! i = Some e"
  by (induction js) (auto split: option.splits)

lemma rejected_Promise_all:
  "rejected (Promise_all ord ps) = firstSettled (map rejected ps) (settleOrder ord (length ps))"
  by (simp add: Promise_all_def split: option.splits)

lemma raceRejection_None_iff: "raceRejection tm svc b = None \<longleftrightarrow> firstRejection svc b = None"
proof -
  have "(\<forall>i<length b. rejection svc (b ! i) = None) \<longleftrightarrow> (\<forall>c\<in>set b. rejection svc c = None)"
    by (simp add: all_set_conv_all_nth)
  then have "(\<forall>i\<in>{..<length b}. rejection svc (b ! i) = None) \<longleftrightarrow> (\<forall>c\<in>set b. rejection svc c = None)"
    by auto
  then show ?thesis
    by (simp add: raceRejection_def firstSettled_None_iff set_settleOrder firstRejection_None_iff)
qed

lemma raceRejection_Some:
  assumes "raceRejection tm svc b = Some e"
  shows "\<exists>c\<in>set b. rejection svc c = Some e"
proof -
  from assms obtain i where "i \<in> set (settleOrder (settle tm b) (length b))"
    and "map (rejection svc) b ! i = Some e"
    unfolding raceRejection_def by (blast dest: firstSettled_Some)
  then have "i < length b" "rejection svc (b ! i) = Some e"
    by (simp_all add: set_settleOrder)
  then show ?thesis
    using nth_mem by blast
qed

lemma raceRejection_single [simp]: "raceRejection tm svc [c] = rejection svc c"
proof (cases "rejection svc c")
  case None
  then have "firstRejection svc [c] = None" by simp
  then have "raceRejection tm svc [c] = None" by (simp only: raceRejection_None_iff)
  with None show ?thesis by simp
next
  case (Some e)
  then have "firstRejection svc [c] \<noteq> None" by simp
  then have "raceRejection tm svc [c] \<noteq> None" by (simp only: raceRejection_None_iff not_False_eq_True)
  then obtain e' where e': "raceRejection tm svc [c] = Some e'" by auto
  from raceRejection_Some [OF this] Some have "e' = e" by simp
  with e' Some show ?thesis by simp
qed

lemma settled_Nil [simp]: "settled tm svc [] = None"
  by (simp add: settled_def)

lemma settled_None_iff: "settled tm svc A = None \<longleftrightarrow> firstRejection svc (concat A) = None"
proof (cases "firstRejection svc (concat A)")
  case None
  then show ?thesis by (simp add: settled_def)
next
  case (Some e)
  from cut_last [OF this] have "firstRejection svc (last (cut svc A)) \<noteq> None" by simp
  then have "raceRejection tm svc (last (cut svc A)) \<noteq> None"
    by (simp only: raceRejection_None_iff not_False_eq_True)
  with Some show ?thesis by (simp add: settled_def)
qed

lemma settled_last:
  assumes "settled tm svc A = Some e"
  shows "cut svc A \<noteq> [] \<and> raceRejection tm svc (last (cut svc A)) = Some e"
proof -
  from assms have "firstRejection svc (concat A) \<noteq> None"
    using settled_None_iff [of tm svc A] by simp
  then obtain e' where e': "firstRejection svc (concat A) = Some e'" by auto
  from cut_last [OF e'] have "cut svc A \<noteq> []" by simp
  moreover from assms e' have "raceRejection tm svc (last (cut svc A)) = Some e"
    by (simp add: settled_def)
  ultimately show ?thesis by simp
qed

lemma settled_append:
  "settled tm svc (A @ B) =
     (case settled tm svc A of Some e \<Rightarrow> Some e | None \<Rightarrow> settled tm svc B)"
proof (cases "firstRejection svc (concat A)")
  case None
  then have a: "settled tm svc A = None" by (simp add: settled_def)
  show ?thesis
  proof (cases "firstRejection svc (concat B)")
    case nb: None
    with None a show ?thesis by (simp add: settled_def firstRejection_append)
  next
    case (Some e)
    from cut_last [OF this] have "cut svc B \<noteq> []" by simp
    with None Some a show ?thesis
      by (simp add: settled_def firstRejection_append cut_append)
  qed
next
  case (Some e)
  then have "settled tm svc A \<noteq> None" using settled_None_iff [of tm svc A] by simp
  then obtain e' where e': "settled tm svc A = Some e'" by auto
  with Some show ?thesis
    by (simp add: settled_def firstRejection_append cut_append)
qed

lemma settled_Cons:
  "settled tm svc (b # A) =
     (case raceRejection tm svc b of Some e \<Rightarrow> Some e | None \<Rightarrow> settled tm svc A)"
proof -
  have "settled tm svc [b] = raceRejection tm svc b"
  proof (cases "firstRejection svc b")
    case None
    then have "raceRejection tm svc b = None" by (simp only: raceRejection_None_iff)
    with None show ?thesis by (simp add: settled_def)
  next
    case (Some e)
    then show ?thesis by (simp add: settled_def)
  qed
  with settled_append [of tm svc "[b]" A] show ?thesis by simp
qed

subsection \<open>The steps, one after the other\<close>

lemma follows_andThen:
  assumes m: "follows tm mu svc ls t m A"
    and f: "\<And>s. prepared mu svc ls s \<Longrightarrow> firstRejection svc (concat A) = None \<Longrightarrow>
                trace s = t @ A \<Longrightarrow> follows tm mu svc ls (t @ A) (f s) B"
  shows "follows tm mu svc ls t (andThen m f) (A @ B)"
proof (cases m)
  case (Pair r s)
  show ?thesis
  proof (cases r)
    case (Inl e)
    with Pair m have st: "settled tm svc A = Some e"
      by (simp add: follows_def)
    then have "firstRejection svc (concat A) \<noteq> None"
      using settled_None_iff [of tm svc A] by simp
    then obtain e' where rej: "firstRejection svc (concat A) = Some e'" by auto
    from Pair Inl have "andThen m f = (Inl e, s)"
      by (simp add: andThen_def)
    with Pair Inl m st rej show ?thesis
      by (simp add: follows_def cut_append settled_append)
  next
    case (Inr v)
    with Pair m have st: "settled tm svc A = None"
      by (simp add: follows_def)
    then have res: "firstRejection svc (concat A) = None"
      by (simp only: settled_None_iff)
    from Pair m have tr: "trace s = t @ A" and prep: "prepared mu svc ls s"
      using res by (simp_all add: follows_def cut_resolved)
    from Pair Inr have "andThen m f = f s"
      by (simp add: andThen_def)
    with f [OF prep res tr] res st show ?thesis
      by (simp add: follows_def cut_append settled_append)
  qed
qed

lemma report_try_andThen:
  "report_try tm mu this ls s =
     andThen (andThen (andThen (andThen (andThen (setup_gh mu this ls s)
       (\<lambda>s. if removeOldComment this then removeExistingComments tm this s else (Inr (), s)))
       (createReviewComments tm this))
       (createSummaryComment mu this))
       (setCommitStatus mu this))
       (\<lambda>s. (Inr (), say (Info ''Report commit status completed'') s))"
  by (simp add: report_try_def andThen_def split: prod.splits sum.splits)

lemma issue_simps [simp]:
  "trace (issue cs s) = trace s @ [cs]" "logs (issue cs s) = logs s"
  "commitId (issue cs s) = commitId s" "touchedDiff (issue cs s) = touchedDiff s"
  "comments (issue cs s) = comments s"
  "nError (issue cs s) = nError s" "nWarning (issue cs s) = nWarning s"
  by (simp_all add: issue_def)

lemma say_simps [simp]:
  "trace (say l s) = trace s" "logs (say l s) = logs s @ [l]"
  "commitId (say l s) = commitId s" "touchedDiff (say l s) = touchedDiff s"
  "comments (say l s) = comments s"
  "nError (say l s) = nError s" "nWarning (say l s) = nWarning s"
  by (simp_all add: say_def)

declare settled_Cons [simp]

lemma prepared_issue [simp]: "prepared mu svc ls (issue cs s) = prepared mu svc ls s"
  by (simp add: prepared_def)

lemma prepared_say [simp]: "prepared mu svc ls (say l s) = prepared mu svc ls s"
  by (simp add: prepared_def)

lemma setup_gh_follows:
  "follows tm mu (prService this) ls (trace s) (setup_gh mu this ls s) [[GetLatestCommitSha], [GetDiff]]"
proof (cases "getLatestCommitSha (prService this)")
  case (Inl e)
  then show ?thesis
    by (simp add: follows_def setup_gh_def Let_def prepared_def)
next
  case sha: (Inr sha)
  show ?thesis
  proof (cases "diff (prService this)")
    case (Inl e)
    with sha show ?thesis
      by (simp add: follows_def setup_gh_def Let_def prepared_def)
  next
    case (Inr d)
    with sha show ?thesis
      by (simp add: follows_def setup_gh_def Let_def prepared_def
          shaOf_def diffOf_def commentsOf_def nErrorOf_def nWarningOf_def)
  qed
qed

lemma rejected_deletes:
  "rejected (Promise_all (settle tm (deleteCalls uid cs rs))
      (map (\<lambda>c. deleteComment svc (comment_id c)) (filter (authoredBy uid) cs) @
       map (\<lambda>r. deleteReviewComment svc (comment_id r)) (filter (authoredBy uid) rs))) =
   raceRejection tm svc (deleteCalls uid cs rs)"
  by (simp add: rejected_Promise_all raceRejection_def deleteCalls_def comp_def)

lemma rejected_None_iff: "rejected p = None \<longleftrightarrow> \<not> isl p"
  by (cases p) (simp_all add: rejected_def)

lemma race_reads:
  "raceRejection tm svc [GetCurrentUserId, ListAllComments, ListAllReviewComments] =
     firstSettled
       [rejected (getCurrentUserId svc), rejected (listAllComments svc),
        rejected (listAllReviewComments svc)]
       (settleOrder (settle tm [GetCurrentUserId, ListAllComments, ListAllReviewComments])
          (length [GetCurrentUserId, ListAllComments, ListAllReviewComments]))"
  by (simp add: raceRejection_def)

lemma removeExistingComments_follows:
  assumes "prepared mu (prService this) ls s"
  shows "follows tm mu (prService this) ls (trace s) (removeExistingComments tm this s)
           [[GetCurrentUserId, ListAllComments, ListAllReviewComments], plannedDeletes (prService this)]"
proof (cases "raceRejection tm (prService this) [GetCurrentUserId, ListAllComments, ListAllReviewComments]")
  case (Some e)
  then have "firstRejection (prService this)
      [GetCurrentUserId, ListAllComments, ListAllReviewComments] \<noteq> None"
    using raceRejection_None_iff [of tm "prService this"
        "[GetCurrentUserId, ListAllComments, ListAllReviewComments]"] by simp
  then have c: "cut (prService this)
      [[GetCurrentUserId, ListAllComments, ListAllReviewComments], plannedDeletes (prService this)] =
      [[GetCurrentUserId, ListAllComments, ListAllReviewComments]]"
    by (simp del: firstRejection.simps)
  from Some have r: "removeExistingComments tm this s =
      (Inl e, issue [GetCurrentUserId, ListAllComments, ListAllReviewComments] s)"
    unfolding race_reads by (simp add: removeExistingComments_def Let_def)
  from Some have "settled tm (prService this)
      [[GetCurrentUserId, ListAllComments, ListAllReviewComments], plannedDeletes (prService this)] =
      Some e"
    by (simp add: settled_Cons)
  with assms c r show ?thesis
    by (simp add: follows_def del: cut.simps)
next
  case None
  then have "firstRejection (prService this)
      [GetCurrentUserId, ListAllComments, ListAllReviewComments] = None"
    by (simp only: raceRejection_None_iff)
  then obtain userId cmts reviews where uid: "getCurrentUserId (prService this) = Inr userId"
    and cs: "listAllComments (prService this) = Inr cmts"
    and rs: "listAllReviewComments (prService this) = Inr reviews"
    by (auto simp: rejected_def split: option.splits sum.splits)
  let ?ps = "map (\<lambda>c. deleteComment (prService this) (comment_id c)) (filter (authoredBy userId) cmts) @
             map (\<lambda>r. deleteReviewComment (prService this) (comment_id r)) (filter (authoredBy userId) reviews)"
  let ?D = "deleteCalls userId cmts reviews"
  have pd: "plannedDeletes (prService this) = ?D"
    using uid cs rs by (simp add: plannedDeletes_def)
  have rej: "rejected (Promise_all (settle tm ?D) ?ps) = raceRejection tm (prService this) ?D"
    by (rule rejected_deletes)
  have st: "settled tm (prService this)
      [[GetCurrentUserId, ListAllComments, ListAllReviewComments], ?D] =
      raceRejection tm (prService this) ?D"
    using None by (simp add: settled_Cons split: option.splits)
  have fr: "firstRejection (prService this)
      [GetCurrentUserId, ListAllComments, ListAllReviewComments] = None"
    using uid cs rs by simp
  from None have fs: "firstSettled
       [rejected (getCurrentUserId (prService this)), rejected (listAllComments (prService this)),
        rejected (listAllReviewComments (prService this))]
       (settleOrder (settle tm [GetCurrentUserId, ListAllComments, ListAllReviewComments])
          (length [GetCurrentUserId, ListAllComments, ListAllReviewComments])) = None"
    by (simp only: race_reads)
  show ?thesis
  proof (cases "Promise_all (settle tm ?D) ?ps")
    case (Inl e)
    with rej have "raceRejection tm (prService this) ?D = Some e"
      by simp
    with assms uid cs rs Inl pd st fs show ?thesis
      by (simp add: follows_def removeExistingComments_def Let_def deleteCalls_def)
  next
    case (Inr vs)
    with rej have r: "raceRejection tm (prService this) ?D = None"
      by simp
    then have "firstRejection (prService this) ?D = None"
      by (simp only: raceRejection_None_iff)
    with assms uid cs rs Inr pd st fs r show ?thesis
      by (simp add: follows_def removeExistingComments_def Let_def deleteCalls_def)
  qed
qed

lemma createReviewComments_follows:
  assumes prep: "prepared mu (prService this) ls s"
    and ok: "rejected (getLatestCommitSha (prService this)) = None" "rejected (diff (prService this)) = None"
  shows "follows tm mu (prService this) ls (trace s) (createReviewComments tm this s)
           (inlinePlan mu (prService this) ls)"
proof -
  let ?b = "map (createReviewComment_call s) (comments s)"
  have m: "map rejected (map (createReviewComment this s) (comments s)) =
      map (rejection (prService this)) ?b"
    by (simp add: createReviewComment_def createReviewComment_call_def split: sum.splits)
  have r: "rejected (Promise_all (settle tm ?b) (map (createReviewComment this s) (comments s))) =
      raceRejection tm (prService this) ?b"
    by (simp only: rejected_Promise_all raceRejection_def m length_map)
  have b: "?b =
      map (\<lambda>c. CreateReviewComment (shaOf (prService this)) (text_c c) (file_c c) (line_c c))
        (commentsOf mu (prService this) ls)"
    using prep ok by (simp add: prepared_def createReviewComment_call_def)
  have st: "settled tm (prService this) [?b] = raceRejection tm (prService this) ?b"
    by (simp add: settled_Cons split: option.splits)
  have p: "prepared mu (prService this) ls (snd (createReviewComments tm this s))"
    using prep by (simp add: createReviewComments_def Let_def prepared_def)
  have t: "trace (snd (createReviewComments tm this s)) = trace s @ [?b]"
    by (simp add: createReviewComments_def Let_def)
  have f: "fst (createReviewComments tm this s) =
      Promise_all (settle tm ?b) (map (createReviewComment this s) (comments s))"
    by (simp add: createReviewComments_def Let_def)
  from r st p t f show ?thesis
    unfolding follows_def inlinePlan_def b [symmetric] by simp
qed

lemma createSummaryComment_follows:
  assumes prep: "prepared mu (prService this) ls s"
    and ok: "rejected (getLatestCommitSha (prService this)) = None" "rejected (diff (prService this)) = None"
  shows "follows tm mu (prService this) ls (trace s) (createSummaryComment mu this s)
           (summaryPlan mu (prService this) ls)"
proof -
  from prep ok have f: "nError s = nErrorOf mu (prService this) ls"
      "nWarning s = nWarningOf mu (prService this) ls"
    by (simp_all add: prepared_def)
  show ?thesis
  proof (cases "nWarning s + nError s > 0")
    case False
    with f prep show ?thesis
      by (simp add: follows_def createSummaryComment_def summaryPlan_def)
  next
    case True
    show ?thesis
    proof (cases "createComment (prService this)
        (generateOverviewMessage mu (nError s) (nWarning s))")
      case (Inl e)
      with True f prep show ?thesis
        by (simp add: follows_def createSummaryComment_def summaryPlan_def Let_def)
    next
      case (Inr v)
      with True f prep show ?thesis
        by (simp add: follows_def createSummaryComment_def summaryPlan_def Let_def)
    qed
  qed
qed

lemma setCommitStatus_follows:
  assumes prep: "prepared mu (prService this) ls s"
    and ok: "rejected (getLatestCommitSha (prService this)) = None" "rejected (diff (prService this)) = None"
  shows "follows tm mu (prService this) ls (trace s) (setCommitStatus mu this s)
           (statusPlan mu (prService this) ls)"
proof -
  from prep ok have f: "nError s = nErrorOf mu (prService this) ls"
      "commitId s = shaOf (prService this)"
    by (simp_all add: prepared_def)
  show ?thesis
  proof (cases "setCommitStatus_s (prService this) (commitId s)
      (if nError s > 0 then failure else success) (generateCommitDescription mu (nError s))")
    case (Inl e)
    with f prep show ?thesis
      by (simp add: follows_def setCommitStatus_def statusPlan_def Let_def)
  next
    case (Inr v)
    with f prep show ?thesis
      by (simp add: follows_def setCommitStatus_def statusPlan_def Let_def)
  qed
qed

lemma setup_resolved:
  "firstRejection svc (concat ([[GetLatestCommitSha], [GetDiff]] @ A)) = None \<Longrightarrow>
     rejected (getLatestCommitSha svc) = None \<and> rejected (diff svc) = None"
  by (simp split: option.splits)

lemma report_try_follows:
  "follows tm mu (prService this) ls (trace s) (report_try tm mu this ls s) (plan mu this ls)"
proof -
  let ?svc = "prService this"
  let ?A1 = "[[GetLatestCommitSha], [GetDiff]]"
  have 1: "follows tm mu ?svc ls (trace s) (setup_gh mu this ls s) ?A1"
    by (rule setup_gh_follows)
  have 2: "follows tm mu ?svc ls (trace s)
      (andThen (setup_gh mu this ls s)
        (\<lambda>s. if removeOldComment this then removeExistingComments tm this s else (Inr (), s)))
      (?A1 @ removalPlan this)"
  proof (rule follows_andThen [OF 1])
    fix s' :: state
    assume p: "prepared mu ?svc ls s'" and t: "trace s' = trace s @ ?A1"
    show "follows tm mu ?svc ls (trace s @ ?A1)
        (if removeOldComment this then removeExistingComments tm this s' else (Inr (), s'))
        (removalPlan this)"
      using removeExistingComments_follows [OF p] p t
      by (simp add: removalPlan_def follows_def)
  qed
  have 3: "follows tm mu ?svc ls (trace s)
      (andThen (andThen (setup_gh mu this ls s)
        (\<lambda>s. if removeOldComment this then removeExistingComments tm this s else (Inr (), s)))
        (createReviewComments tm this))
      ((?A1 @ removalPlan this) @ inlinePlan mu ?svc ls)"
  proof (rule follows_andThen [OF 2])
    fix s' :: state
    assume p: "prepared mu ?svc ls s'" and t: "trace s' = trace s @ ?A1 @ removalPlan this"
      and r: "firstRejection ?svc (concat (?A1 @ removalPlan this)) = None"
    from setup_resolved [OF r] createReviewComments_follows [OF p] t
    show "follows tm mu ?svc ls (trace s @ ?A1 @ removalPlan this) (createReviewComments tm this s')
        (inlinePlan mu ?svc ls)"
      by simp
  qed
  have 4: "follows tm mu ?svc ls (trace s)
      (andThen (andThen (andThen (setup_gh mu this ls s)
        (\<lambda>s. if removeOldComment this then removeExistingComments tm this s else (Inr (), s)))
        (createReviewComments tm this)) (createSummaryComment mu this))
      (((?A1 @ removalPlan this) @ inlinePlan mu ?svc ls) @ summaryPlan mu ?svc ls)"
  proof (rule follows_andThen [OF 3])
    fix s' :: state
    assume p: "prepared mu ?svc ls s'"
      and t: "trace s' = trace s @ (?A1 @ removalPlan this) @ inlinePlan mu ?svc ls"
      and r: "firstRejection ?svc (concat ((?A1 @ removalPlan this) @ inlinePlan mu ?svc ls)) = None"
    from r have "firstRejection ?svc (concat (?A1 @ (removalPlan this @ inlinePlan mu ?svc ls))) = None"
      by simp
    from setup_resolved [OF this] createSummaryComment_follows [OF p] t
    show "follows tm mu ?svc ls (trace s @ (?A1 @ removalPlan this) @ inlinePlan mu ?svc ls)
        (createSummaryComment mu this s') (summaryPlan mu ?svc ls)"
      by simp
  qed
  have 5: "follows tm mu ?svc ls (trace s)
      (andThen (andThen (andThen (andThen (setup_gh mu this ls s)
        (\<lambda>s. if removeOldComment this then removeExistingComments tm this s else (Inr (), s)))
        (createReviewComments tm this)) (createSummaryComment mu this)) (setCommitStatus mu this))
      ((((?A1 @ removalPlan this) @ inlinePlan mu ?svc ls) @ summaryPlan mu ?svc ls) @
        statusPlan mu ?svc ls)"
  proof (rule follows_andThen [OF 4])
    fix s' :: state
    assume p: "prepared mu ?svc ls s'"
      and t: "trace s' = trace s @ ((?A1 @ removalPlan this) @ inlinePlan mu ?svc ls) @ summaryPlan mu ?svc ls"
      and r: "firstRejection ?svc
          (concat (((?A1 @ removalPlan this) @ inlinePlan mu ?svc ls) @ summaryPlan mu ?svc ls)) = None"
    from r have "firstRejection ?svc
        (concat (?A1 @ (removalPlan this @ inlinePlan mu ?svc ls @ summaryPlan mu ?svc ls))) = None"
      by simp
    from setup_resolved [OF this] setCommitStatus_follows [OF p] t
    show "follows tm mu ?svc ls
        (trace s @ ((?A1 @ removalPlan this) @ inlinePlan mu ?svc ls) @ summaryPlan mu ?svc ls)
        (setCommitStatus mu this s') (statusPlan mu ?svc ls)"
      by simp
  qed
  have 6: "follows tm mu ?svc ls (trace s)
      (andThen (andThen (andThen (andThen (andThen (setup_gh mu this ls s)
        (\<lambda>s. if removeOldComment this then removeExistingComments tm this s else (Inr (), s)))
        (createReviewComments tm this)) (createSummaryComment mu this)) (setCommitStatus mu this))
        (\<lambda>s. (Inr (), say (Info ''Report commit status completed'') s)))
      (((((?A1 @ removalPlan this) @ inlinePlan mu ?svc ls) @ summaryPlan mu ?svc ls) @
        statusPlan mu ?svc ls) @ [])"
  proof (rule follows_andThen [OF 5])
    fix s' :: state
    assume p: "prepared mu ?svc ls s'"
      and t: "trace s' = trace s @ (((?A1 @ removalPlan this) @ inlinePlan mu ?svc ls) @
          summaryPlan mu ?svc ls) @ statusPlan mu ?svc ls"
    then show "follows tm mu ?svc ls
        (trace s @ (((?A1 @ removalPlan this) @ inlinePlan mu ?svc ls) @ summaryPlan mu ?svc ls) @
          statusPlan mu ?svc ls)
        (Inr (), say (Info ''Report commit status completed'') s') []"
      by (simp add: follows_def)
  qed
  then show ?thesis
    by (simp add: report_try_andThen plan_def)
qed

subsection \<open>The run as a whole\<close>

lemma report_fst:
  "fst (report tm mu this ls s) =
     (case settled tm (prService this) (plan mu this ls) of
        None \<Rightarrow> Inr True | Some e \<Rightarrow> Inl e)"
proof (cases "report_try tm mu this ls s")
  case (Pair r s1)
  with report_try_follows [of tm mu this ls s]
  have "settled tm (prService this) (plan mu this ls) = rejected r"
    by (simp add: follows_def)
  with Pair show ?thesis
    by (cases r) (simp_all add: report_def)
qed

lemma report_resolved:
  "firstRejection (prService this) (concat (plan mu this ls)) = None \<Longrightarrow>
     fst (report tm mu this ls s) = Inr True"
  using settled_None_iff [of tm "prService this" "plan mu this ls"]
  by (simp add: report_fst)

lemma report_Inr:
  "fst (report tm mu this ls s) = Inr b \<Longrightarrow>
     firstRejection (prService this) (concat (plan mu this ls)) = None"
  using settled_None_iff [of tm "prService this" "plan mu this ls"]
  by (simp add: report_fst split: option.splits)

lemma report_trace:
  "trace (snd (report tm mu this ls s)) = trace s @ cut (prService this) (plan mu this ls)"
proof (cases "report_try tm mu this ls s")
  case (Pair r s1)
  with report_try_follows [of tm mu this ls s]
  have "trace s1 = trace s @ cut (prService this) (plan mu this ls)"
    by (simp add: follows_def)
  with Pair show ?thesis
    by (cases r) (simp_all add: report_def)
qed

lemma report_prepared: "prepared mu (prService this) ls (snd (report tm mu this ls s))"
proof (cases "report_try tm mu this ls s")
  case (Pair r s1)
  with report_try_follows [of tm mu this ls s]
  have "prepared mu (prService this) ls s1"
    by (simp add: follows_def)
  with Pair show ?thesis
    by (cases r) (simp_all add: report_def)
qed

lemma report_logs:
  "fst (report tm mu this ls s) = Inl e \<Longrightarrow>
     last (logs (snd (report tm mu this ls s))) = Error ''GitHub report failed'' e"
  by (cases "report_try tm mu this ls s") (auto simp: report_def split: sum.splits)

lemma calls_report:
  "calls (snd (report tm mu this ls fresh)) = concat (cut (prService this) (plan mu this ls))"
  by (simp add: calls_def report_trace fresh_def)

lemma report_fields:
  assumes "getLatestCommitSha (prService this) = Inr sha" and "diff (prService this) = Inr d"
  shows "commitId (snd (report tm mu this ls s)) = sha"
    and "touchedDiff (snd (report tm mu this ls s)) = d"
    and "comments (snd (report tm mu this ls s)) = groupComments mu (touchedFileLog ls d)"
    and "nError (snd (report tm mu this ls s)) =
           foldl (\<lambda>sum comment. sum + errors comment) 0 (comments (snd (report tm mu this ls s)))"
    and "nWarning (snd (report tm mu this ls s)) =
           foldl (\<lambda>sum comment. sum + warnings comment) 0 (comments (snd (report tm mu this ls s)))"
  using report_prepared [where tm = tm and mu = mu and this = this and ls = ls and s = s] assms
  by (simp_all add: prepared_def shaOf_def diffOf_def commentsOf_def nErrorOf_def nWarningOf_def)

lemma foldl_plus: "foldl (\<lambda>sum x. sum + f x) a xs = (a::int) + sum_list (map f xs)"
  by (induction xs arbitrary: a) simp_all

subsection \<open>The phases of the batches\<close>

lemma phase_plannedDeletes: "c \<in> set (plannedDeletes svc) \<Longrightarrow> phase c = 1"
  by (auto simp: plannedDeletes_def deleteCalls_def split: sum.splits)

lemma phase_removalPlan: "b \<in> set (removalPlan this) \<Longrightarrow> c \<in> set b \<Longrightarrow> phase c = 1"
  by (auto simp: removalPlan_def phase_plannedDeletes split: if_splits)

lemma phase_inlinePlan: "b \<in> set (inlinePlan mu svc ls) \<Longrightarrow> c \<in> set b \<Longrightarrow> phase c = 2"
  by (auto simp: inlinePlan_def)

lemma phase_summaryPlan: "b \<in> set (summaryPlan mu svc ls) \<Longrightarrow> c \<in> set b \<Longrightarrow> phase c = 3"
  by (auto simp: summaryPlan_def split: if_splits)

lemma phase_statusPlan: "b \<in> set (statusPlan mu svc ls) \<Longrightarrow> c \<in> set b \<Longrightarrow> phase c = 4"
  by (auto simp: statusPlan_def)

lemma plan_one_phase:
  assumes "b \<in> set (plan mu this ls)" and "c \<in> set b" and "c' \<in> set b"
  shows "phase c = phase c'"
proof -
  from assms(1) consider "b = [GetLatestCommitSha]" | "b = [GetDiff]"
    | "b \<in> set (removalPlan this)" | "b \<in> set (inlinePlan mu (prService this) ls)"
    | "b \<in> set (summaryPlan mu (prService this) ls)" | "b \<in> set (statusPlan mu (prService this) ls)"
    by (auto simp: plan_def)
  then show ?thesis
  proof cases
    case 1 with assms show ?thesis by simp
  next
    case 2 with assms show ?thesis by simp
  next
    case 3 with assms show ?thesis by (simp add: phase_removalPlan)
  next
    case 4 with assms show ?thesis by (simp add: phase_inlinePlan)
  next
    case 5 with assms show ?thesis by (simp add: phase_summaryPlan)
  next
    case 6 with assms show ?thesis by (simp add: phase_statusPlan)
  qed
qed

lemma plan_sorted: "sorted (map phase (concat (plan mu this ls)))"
proof -
  have r: "\<forall>c\<in>set (concat (removalPlan this)). phase c = 1"
    by (auto simp: phase_removalPlan)
  have i: "\<forall>c\<in>set (concat (inlinePlan mu (prService this) ls)). phase c = 2"
    by (auto simp: phase_inlinePlan)
  have u: "\<forall>c\<in>set (concat (summaryPlan mu (prService this) ls)). phase c = 3"
    by (auto simp: phase_summaryPlan)
  have t: "\<forall>c\<in>set (concat (statusPlan mu (prService this) ls)). phase c = 4"
    by (auto simp: phase_statusPlan)
  have const: "sorted (map phase xs)" if "\<forall>c\<in>set xs. phase c = n" for xs n
    using that by (induction xs) auto
  show ?thesis
    using r i u t const [OF r] const [OF i] const [OF u] const [OF t]
    by (simp add: plan_def sorted_append) force
qed

lemma cut_subset: "set (cut svc A) \<subseteq> set A"
proof -
  obtain n where "cut svc A = take n A" using cut_take by blast
  then show ?thesis by (simp add: set_take_subset)
qed

lemma cut_sorted:
  assumes "sorted (map f (concat A))"
  shows "sorted (map f (concat (cut svc A)))"
proof -
  obtain n where n: "cut svc A = take n A" using cut_take by blast
  have "concat A = concat (take n A) @ concat (drop n A)"
    by (metis append_take_drop_id concat_append)
  with assms have "sorted (map f (concat (take n A)))"
    by (simp add: sorted_append)
  with n show ?thesis by simp
qed

subsection \<open>The example runs\<close>

lemmas mock_defs = inIssueOrder_def exampleMessages_def touchFileError_def touchFileWarning_def untouchedError_def
  untouchedWarning_def mockTouchDiff_def mockComments_def mockReviews_def serviceMock_def failingMock_def

lemmas run_defs = report_def report_try_def setup_gh_def removeExistingComments_def
  createReviewComments_def createReviewComment_def createReviewComment_call_def
  createSummaryComment_def setCommitStatus_def issue_def say_def fresh_def new_GitHub_def
  Promise_all_def settleOrder_def resumeAt_def rejected_def List.map_filter_def
  touchedFileLog_def onlySeverity_def onlyIn_def groupComments_def newComment_def updateComment_def
  authoredBy_def Let_def

lemma run_one_error: "report inIssueOrder exampleMessages (new_GitHub serviceMock None) [touchFileError] fresh =
  (Inr True, \<lparr>commitId = ''sha'', touchedDiff = [mockTouchDiff],
     comments = [\<lparr>text_c = ''e1'', file_c = ''a.ts'', line_c = 10, errors = 1, warnings = 0\<rparr>],
     nWarning = 0, nError = 1,
     trace = [[GetLatestCommitSha], [GetDiff], [CreateReviewComment ''sha'' ''e1'' ''a.ts'' 10],
              [CreateComment ''overview''], [SetCommitStatus ''sha'' failure ''errors found'']],
     logs = [Debug ''VCS Setup'', Debug ''GitHub create review success'',
             Info ''Create summary comment completed'', Info ''Report commit status completed''],
       later = []\<rparr>)"
  by (simp add: run_defs mock_defs)

lemma run_full:
  "report inIssueOrder exampleMessages (new_GitHub serviceMock (Some True))
     [touchFileError, touchFileWarning, untouchedError, untouchedWarning] fresh =
   (Inr True,
    \<lparr>commitId = ''sha'', touchedDiff = [mockTouchDiff],
       comments = [\<lparr>text_c = ''e1'', file_c = ''a.ts'', line_c = 10, errors = 1, warnings = 0\<rparr>,
                   \<lparr>text_c = ''w1'', file_c = ''a.ts'', line_c = 11, errors = 0, warnings = 1\<rparr>],
       nWarning = 1, nError = 1,
       trace = [[GetLatestCommitSha], [GetDiff],
                [GetCurrentUserId, ListAllComments, ListAllReviewComments],
                [DeleteComment 1, DeleteComment 2, DeleteReviewComment 5],
                [CreateReviewComment ''sha'' ''e1'' ''a.ts'' 10,
                 CreateReviewComment ''sha'' ''w1'' ''a.ts'' 11],
                [CreateComment ''overview''],
                [SetCommitStatus ''sha'' failure ''errors found'']],
       logs = [Debug ''VCS Setup'', Debug ''Get existing CodeCoach comments completed'',
               Debug ''Delete CodeCoach comments completed'',
               Debug ''GitHub create review success'', Debug ''GitHub create review success'',
               Info ''Create summary comment completed'',
               Info ''Report commit status completed''],
       later = []\<rparr>)"
  by (simp add: run_defs mock_defs)

lemma run_failing:
  "report inIssueOrder exampleMessages (new_GitHub failingMock (Some True))
     [touchFileError, touchFileWarning, untouchedError, untouchedWarning] fresh =
   (Inl (Rejected ''no network''),
    \<lparr>commitId = ''sha'', touchedDiff = [mockTouchDiff],
       comments = [\<lparr>text_c = ''e1'', file_c = ''a.ts'', line_c = 10, errors = 1, warnings = 0\<rparr>,
                   \<lparr>text_c = ''w1'', file_c = ''a.ts'', line_c = 11, errors = 0, warnings = 1\<rparr>],
       nWarning = 1, nError = 1,
       trace = [[GetLatestCommitSha], [GetDiff],
                [GetCurrentUserId, ListAllComments, ListAllReviewComments],
                [DeleteComment 1, DeleteComment 2, DeleteReviewComment 5],
                [CreateReviewComment ''sha'' ''e1'' ''a.ts'' 10,
                 CreateReviewComment ''sha'' ''w1'' ''a.ts'' 11]],
       logs = [Debug ''VCS Setup'', Debug ''Get existing CodeCoach comments completed'',
               Debug ''Delete CodeCoach comments completed'',
               Error ''GitHub report failed'' (Rejected ''no network'')],
       later = []\<rparr>)"
  by (simp add: run_defs mock_defs)

lemma run_empty:
  "report inIssueOrder exampleMessages (new_GitHub serviceMock (Some True)) [] fresh =
   (Inr True,
    \<lparr>commitId = ''sha'', touchedDiff = [mockTouchDiff], comments = [], nWarning = 0, nError = 0,
       trace = [[GetLatestCommitSha], [GetDiff],
                [GetCurrentUserId, ListAllComments, ListAllReviewComments],
                [DeleteComment 1, DeleteComment 2, DeleteReviewComment 5],
                [], [SetCommitStatus ''sha'' success ''no error'']],
       logs = [Debug ''VCS Setup'', Debug ''Get existing CodeCoach comments completed'',
               Debug ''Delete CodeCoach comments completed'',
               Info ''No summary comment needed'',
               Info ''Report commit status completed''],
       later = []\<rparr>)"
  by (simp add: run_defs mock_defs)

lemma prService_new [simp]: "prService (new_GitHub svc opt) = svc"
  by (simp add: new_GitHub_def)

lemma serviceMock_simps [simp]:
  "getLatestCommitSha serviceMock = Inr ''sha''"
  "diff serviceMock = Inr [mockTouchDiff]"
  "getCurrentUserId serviceMock = Inr 7"
  "listAllComments serviceMock = Inr mockComments"
  "listAllReviewComments serviceMock = Inr mockReviews"
  "deleteComment serviceMock i = Inr ()"
  "deleteReviewComment serviceMock i = Inr ()"
  "createReviewComment_s serviceMock sha t f n = Inr ()"
  "createComment serviceMock t = Inr ()"
  "setCommitStatus_s serviceMock sha st d = Inr ()"
  by (simp_all add: serviceMock_def)

lemma failingMock_simps [simp]:
  "getLatestCommitSha failingMock = Inr ''sha''"
  "diff failingMock = Inr [mockTouchDiff]"
  "getCurrentUserId failingMock = Inr 7"
  "listAllComments failingMock = Inr mockComments"
  "listAllReviewComments failingMock = Inr mockReviews"
  "deleteComment failingMock i = Inr ()"
  "deleteReviewComment failingMock i = Inr ()"
  "createReviewComment_s failingMock sha t f n = Inl (Rejected ''no network'')"
  "createComment failingMock t = Inr ()"
  "setCommitStatus_s failingMock sha st d = Inr ()"
  by (simp_all add: failingMock_def serviceMock_def)

lemma serviceMock_resolves [simp]: "rejection serviceMock c = None"
  by (cases c) simp_all

subsection \<open>What the filters and the grouper keep\<close>

lemma onlyIn_iff: "onlyIn diffs l \<longleftrightarrow> (\<exists>e\<in>set diffs. file_d e = source l \<and> line l \<in> changedLines e)"
  by (simp add: onlyIn_def list_ex_iff)

lemma errors_addLog:
  "sum_list (map errors (addLog mu cs l)) =
     sum_list (map errors cs) + (if severity l = error then 1 else 0)"
  by (induction cs) (simp_all add: newComment_def updateComment_def)

lemma warnings_addLog:
  "sum_list (map warnings (addLog mu cs l)) =
     sum_list (map warnings cs) + (if severity l = warning then 1 else 0)"
  by (induction cs) (simp_all add: newComment_def updateComment_def)

lemma errors_foldl_addLog:
  "sum_list (map errors (foldl (addLog mu) cs ls)) =
     sum_list (map errors cs) + int (length [l \<leftarrow> ls. severity l = error])"
  by (induction ls arbitrary: cs) (simp_all add: errors_addLog)

lemma warnings_foldl_addLog:
  "sum_list (map warnings (foldl (addLog mu) cs ls)) =
     sum_list (map warnings cs) + int (length [l \<leftarrow> ls. severity l = warning])"
  by (induction ls arbitrary: cs) (simp_all add: warnings_addLog)

lemma errors_groupComments:
  "sum_list (map errors (groupComments mu ls)) = int (length [l \<leftarrow> ls. severity l = error])"
  by (simp add: groupComments_def errors_foldl_addLog)

lemma warnings_groupComments:
  "sum_list (map warnings (groupComments mu ls)) = int (length [l \<leftarrow> ls. severity l = warning])"
  by (simp add: groupComments_def warnings_foldl_addLog)

lemma severity_touchedFileLog:
  "l \<in> set (touchedFileLog ls d) \<Longrightarrow> severity l = error \<or> severity l = warning"
  by (auto simp: touchedFileLog_def onlySeverity_def)

lemma count_touchedFileLog:
  "int (length [l \<leftarrow> touchedFileLog ls d. severity l = error]) +
   int (length [l \<leftarrow> touchedFileLog ls d. severity l = warning]) =
   int (length (touchedFileLog ls d))"
proof -
  have "length [l \<leftarrow> xs. severity l = error] + length [l \<leftarrow> xs. severity l = warning] = length xs"
    if "\<forall>l\<in>set xs. severity l = error \<or> severity l = warning" for xs :: "LogType list"
    using that by (induction xs) auto
  from this [of "touchedFileLog ls d"] show ?thesis
    using severity_touchedFileLog by (metis of_nat_add)
qed

lemma groupComments_empty_iff: "groupComments mu ls = [] \<longleftrightarrow> ls = []"
proof -
  have a: "addLog mu cs l \<noteq> []" for cs l
    by (cases cs) simp_all
  have b: "cs \<noteq> [] \<Longrightarrow> foldl (addLog mu) cs xs \<noteq> []" for cs xs
    by (induction xs arbitrary: cs) (simp_all add: a)
  show ?thesis
    by (cases ls) (simp_all add: groupComments_def b)
qed

subsection \<open>Parts of a run\<close>

lemma cut_concat_subset: "set (concat (cut svc A)) \<subseteq> set (concat A)"
  using cut_subset [of svc A] by auto

lemma cut_prefix_resolved:
  assumes ok: "\<forall>c\<in>set (concat (cut svc (P @ Q))). pr c \<longrightarrow> rejection svc c = None"
    and pr: "\<forall>c\<in>set (concat P). pr c"
  shows "firstRejection svc (concat P) = None"
proof (rule ccontr)
  assume "firstRejection svc (concat P) \<noteq> None"
  then obtain e where n: "firstRejection svc (concat P) = Some e" by auto
  then have c: "cut svc (P @ Q) = cut svc P"
    by (simp add: cut_append)
  from n have "firstRejection svc (concat (cut svc P)) \<noteq> None"
    by (simp add: firstRejection_cut)
  then obtain c where c1: "c \<in> set (concat (cut svc P))" and c2: "rejection svc c \<noteq> None"
    unfolding firstRejection_None_iff by blast
  from c1 have "c \<in> set (concat P)"
    using cut_concat_subset [of svc P] by blast
  with pr have "pr c" by blast
  with ok c c1 have "rejection svc c = None" by auto
  with c2 show False by simp
qed

lemma cut_append_resolved:
  "firstRejection svc (concat P) = None \<Longrightarrow> cut svc (P @ Q) = P @ cut svc Q"
  by (simp add: cut_append)

lemma filter_cut_none:
  assumes "\<forall>c\<in>set (concat A). \<not> P c"
  shows "filter P (concat (cut svc A)) = []"
  using assms cut_concat_subset [of svc A] by (auto simp: filter_empty_conv)

lemma filter_none: "\<forall>c\<in>set xs. \<not> P c \<Longrightarrow> filter P xs = []"
  by (simp add: filter_empty_conv)

lemma concat_cut_Cons:
  "concat (cut svc (b # bs)) = b @ (if firstRejection svc b = None then concat (cut svc bs) else [])"
  by simp

lemma phase_concat_removalPlan: "c \<in> set (concat (removalPlan this)) \<Longrightarrow> phase c = 1"
  by (auto simp: phase_removalPlan)

lemma phase_concat_inlinePlan: "c \<in> set (concat (inlinePlan mu svc ls)) \<Longrightarrow> phase c = 2"
  by (auto simp: phase_inlinePlan)

lemma phase_concat_summaryPlan: "c \<in> set (concat (summaryPlan mu svc ls)) \<Longrightarrow> phase c = 3"
  by (auto simp: phase_summaryPlan)

lemma phase_concat_statusPlan: "c \<in> set (concat (statusPlan mu svc ls)) \<Longrightarrow> phase c = 4"
  by (auto simp: phase_statusPlan)

lemma report_resolved_fields:
  assumes "rejected (getLatestCommitSha (prService this)) = None"
    and "rejected (diff (prService this)) = None"
  shows "getLatestCommitSha (prService this) = Inr (commitId (snd (report tm mu this ls s)))"
    and "diff (prService this) = Inr (touchedDiff (snd (report tm mu this ls s)))"
    and "comments (snd (report tm mu this ls s)) =
           groupComments mu (touchedFileLog ls (touchedDiff (snd (report tm mu this ls s))))"
    and "nError (snd (report tm mu this ls s)) = sum_list (map errors (comments (snd (report tm mu this ls s))))"
    and "nWarning (snd (report tm mu this ls s)) = sum_list (map warnings (comments (snd (report tm mu this ls s))))"
    and "commitId (snd (report tm mu this ls s)) = shaOf (prService this)"
    and "nError (snd (report tm mu this ls s)) = nErrorOf mu (prService this) ls"
    and "nWarning (snd (report tm mu this ls s)) = nWarningOf mu (prService this) ls"
proof -
  from assms obtain sha d where sd: "getLatestCommitSha (prService this) = Inr sha"
      "diff (prService this) = Inr d"
    by (auto simp: rejected_def split: sum.splits)
  note f = report_fields [OF sd, where tm = tm and mu = mu and ls = ls and s = s]
  from f sd show "getLatestCommitSha (prService this) = Inr (commitId (snd (report tm mu this ls s)))"
    and "diff (prService this) = Inr (touchedDiff (snd (report tm mu this ls s)))"
    and "comments (snd (report tm mu this ls s)) =
           groupComments mu (touchedFileLog ls (touchedDiff (snd (report tm mu this ls s))))"
    by simp_all
  from f show "nError (snd (report tm mu this ls s)) = sum_list (map errors (comments (snd (report tm mu this ls s))))"
    and "nWarning (snd (report tm mu this ls s)) = sum_list (map warnings (comments (snd (report tm mu this ls s))))"
    by (simp_all add: foldl_plus)
  from report_prepared [where tm = tm and mu = mu and this = this and ls = ls and s = s] assms
  show "commitId (snd (report tm mu this ls s)) = shaOf (prService this)"
    and "nError (snd (report tm mu this ls s)) = nErrorOf mu (prService this) ls"
    and "nWarning (snd (report tm mu this ls s)) = nWarningOf mu (prService this) ls"
    by (simp_all add: prepared_def)
qed

lemma isDelete_phase: "isDelete c \<Longrightarrow> phase c = 1"
  by (cases c) simp_all

lemma isDelete_deleteCalls: "c \<in> set (deleteCalls uid cs rs) \<Longrightarrow> isDelete c"
  by (auto simp: deleteCalls_def)

lemma removal_issued:
  assumes flag: "removeOldComment this"
    and sha: "getLatestCommitSha (prService this) = Inr sha"
    and d: "diff (prService this) = Inr d"
  shows "[GetCurrentUserId, ListAllComments, ListAllReviewComments]
           \<in> set (trace (snd (report tm mu this ls fresh)))"
proof -
  let ?svc = "prService this"
  let ?R = "([GetCurrentUserId, ListAllComments, ListAllReviewComments] # plannedDeletes ?svc #
      inlinePlan mu ?svc ls @ summaryPlan mu ?svc ls @ statusPlan mu ?svc ls)"
  have pl: "plan mu this ls = [[GetLatestCommitSha], [GetDiff]] @ ?R"
    using flag by (simp add: plan_def removalPlan_def)
  have "firstRejection ?svc (concat [[GetLatestCommitSha], [GetDiff]]) = None"
    using sha d by simp
  from cut_append_resolved [OF this]
  have "cut ?svc (plan mu this ls) = [[GetLatestCommitSha], [GetDiff]] @ cut ?svc ?R"
    by (simp only: pl)
  then show ?thesis
    by (simp add: report_trace fresh_def)
qed

lemma deletes_issued:
  assumes flag: "removeOldComment this"
    and sha: "getLatestCommitSha (prService this) = Inr sha"
    and d: "diff (prService this) = Inr d"
    and uid: "getCurrentUserId (prService this) = Inr uid"
    and cs: "listAllComments (prService this) = Inr cs"
    and rs: "listAllReviewComments (prService this) = Inr rs"
  shows "[c \<leftarrow> calls (snd (report tm mu this ls fresh)). isDelete c] = deleteCalls uid cs rs"
proof -
  let ?svc = "prService this"
  let ?P = "[[GetLatestCommitSha], [GetDiff], [GetCurrentUserId, ListAllComments, ListAllReviewComments]]"
  let ?D = "deleteCalls uid cs rs"
  let ?R = "inlinePlan mu ?svc ls @ summaryPlan mu ?svc ls @ statusPlan mu ?svc ls"
  have pd: "plannedDeletes ?svc = ?D"
    using uid cs rs by (simp add: plannedDeletes_def)
  have pl: "plan mu this ls = ?P @ (?D # ?R)"
    using flag by (simp add: plan_def removalPlan_def pd)
  have "firstRejection ?svc (concat ?P) = None"
    using sha d uid cs rs by simp
  from cut_append_resolved [OF this]
  have "cut ?svc (plan mu this ls) = ?P @ cut ?svc (?D # ?R)"
    by (simp only: pl)
  then have c: "calls (snd (report tm mu this ls fresh)) =
      concat ?P @ ?D @ (if firstRejection ?svc ?D = None then concat (cut ?svc ?R) else [])"
    by (simp only: calls_report concat_append concat_cut_Cons)
  have "\<forall>c\<in>set (concat ?R). \<not> isDelete c"
  proof
    fix c
    assume "c \<in> set (concat ?R)"
    then consider "c \<in> set (concat (inlinePlan mu ?svc ls))"
      | "c \<in> set (concat (summaryPlan mu ?svc ls))" | "c \<in> set (concat (statusPlan mu ?svc ls))"
      by auto
    then have "phase c \<noteq> 1"
      by cases (simp_all add: phase_concat_inlinePlan phase_concat_summaryPlan phase_concat_statusPlan)
    then show "\<not> isDelete c"
      using isDelete_phase by blast
  qed
  then have r: "filter isDelete (concat (cut ?svc ?R)) = []"
    by (rule filter_cut_none)
  have dd: "filter isDelete ?D = ?D"
    by (simp add: isDelete_deleteCalls)
  show ?thesis
    unfolding c by (simp add: r dd)
qed






lemma delete_in_plan:
  assumes "c \<in> set (concat (plan mu this ls))" and "isDelete c"
  shows "c \<in> set (plannedDeletes (prService this))"
proof -
  let ?svc = "prService this"
  from assms(1) consider "c = GetLatestCommitSha" | "c = GetDiff"
    | "c \<in> set (concat (removalPlan this))"
    | "c \<in> set (concat (inlinePlan mu ?svc ls))"
    | "c \<in> set (concat (summaryPlan mu ?svc ls))" | "c \<in> set (concat (statusPlan mu ?svc ls))"
    by (auto simp: plan_def)
  then show ?thesis
  proof cases
    case 3
    with assms(2) show ?thesis
      by (auto simp: removalPlan_def split: if_splits)
  qed (use assms(2) isDelete_phase [of c] phase_concat_inlinePlan [of c mu ?svc ls]
      phase_concat_summaryPlan [of c mu ?svc ls] phase_concat_statusPlan [of c mu ?svc ls] in auto)
qed

lemma plannedDeletes_cases:
  assumes "c \<in> set (plannedDeletes svc)"
  obtains uid cs rs where "getCurrentUserId svc = Inr uid" "listAllComments svc = Inr cs"
    "listAllReviewComments svc = Inr rs" "c \<in> set (deleteCalls uid cs rs)"
proof (cases "getCurrentUserId svc")
  case (Inl e)
  with assms show ?thesis by (simp add: plannedDeletes_def)
next
  case uid: (Inr uid)
  show ?thesis
  proof (cases "listAllComments svc")
    case (Inl e)
    with assms uid show ?thesis by (simp add: plannedDeletes_def)
  next
    case cs: (Inr cs)
    show ?thesis
    proof (cases "listAllReviewComments svc")
      case (Inl e)
      with assms uid cs show ?thesis by (simp add: plannedDeletes_def)
    next
      case (Inr rs)
      with assms uid cs show ?thesis by (intro that) (simp_all add: plannedDeletes_def)
    qed
  qed
qed

subsection \<open>More example runs\<close>

lemma run_quiet:
  "report inIssueOrder exampleMessages (new_GitHub serviceMock (Some True)) [untouchedError, untouchedWarning] fresh =
   (Inr True,
    \<lparr>commitId = ''sha'', touchedDiff = [mockTouchDiff], comments = [], nWarning = 0, nError = 0,
       trace = [[GetLatestCommitSha], [GetDiff],
                [GetCurrentUserId, ListAllComments, ListAllReviewComments],
                [DeleteComment 1, DeleteComment 2, DeleteReviewComment 5],
                [], [SetCommitStatus ''sha'' success ''no error'']],
       logs = [Debug ''VCS Setup'', Debug ''Get existing CodeCoach comments completed'',
               Debug ''Delete CodeCoach comments completed'',
               Info ''No summary comment needed'',
               Info ''Report commit status completed''],
       later = []\<rparr>)"
  by (simp add: run_defs mock_defs)

lemma fullRun_eq:
  "report inIssueOrder exampleMessages (new_GitHub serviceMock (Some True))
     [touchFileError, touchFileWarning, untouchedError, untouchedWarning] fresh =
   (Inr True, snd fullRun)"
  by (simp add: fullRun_def run_full)

lemma quietRun_eq:
  "report inIssueOrder exampleMessages (new_GitHub serviceMock (Some True)) [untouchedError, untouchedWarning] fresh =
   (Inr True, snd quietRun)"
  by (simp add: quietRun_def run_quiet)


lemma calls_quietRun:
  "calls (snd quietRun) =
     [GetLatestCommitSha, GetDiff, GetCurrentUserId, ListAllComments, ListAllReviewComments,
      DeleteComment 1, DeleteComment 2, DeleteReviewComment 5,
      SetCommitStatus ''sha'' success ''no error'']"
  by (simp add: quietRun_def run_quiet calls_def)

text \<open>
  Two inline comments that both reject: the error \<open>report\<close> throws is that of the
  promise that settles first, which need not be the one issued first.
\<close>

lemma run_racing:
  "report secondFirst exampleMessages (new_GitHub racingMock None)
     [touchFileError, touchFileWarning] fresh =
   (Inl (Rejected ''fast''),
    \<lparr>commitId = ''sha'', touchedDiff = [mockTouchDiff],
       comments = [\<lparr>text_c = ''e1'', file_c = ''a.ts'', line_c = 10, errors = 1, warnings = 0\<rparr>,
                   \<lparr>text_c = ''w1'', file_c = ''a.ts'', line_c = 11, errors = 0, warnings = 1\<rparr>],
       nWarning = 1, nError = 1,
       trace = [[GetLatestCommitSha], [GetDiff],
                [CreateReviewComment ''sha'' ''e1'' ''a.ts'' 10,
                 CreateReviewComment ''sha'' ''w1'' ''a.ts'' 11]],
       logs = [Debug ''VCS Setup'', Error ''GitHub report failed'' (Rejected ''fast'')],
       later = []\<rparr>)"
  by (simp add: run_defs mock_defs racingMock_def secondFirst_def)

lemma run_racing_in_order:
  "fst (report inIssueOrder exampleMessages (new_GitHub racingMock None)
     [touchFileError, touchFileWarning] fresh) = Inl (Rejected ''slow'')"
  by (simp add: run_defs mock_defs racingMock_def)

text \<open>
  The first inline comment rejects and the second resolves: the debug line of the
  second is in the log before the error line when its promise has settled by the time
  \<open>report\<close> resumes, and is written after \<open>report\<close> has thrown when it has not.
\<close>

lemma run_half_seen:
  "logs (snd (report allSeen exampleMessages (new_GitHub halfFailingMock None)
     [touchFileError, touchFileWarning] fresh)) =
     [Debug ''VCS Setup'', Debug ''GitHub create review success'',
      Error ''GitHub report failed'' (Rejected ''no network'')] \<and>
   later (snd (report allSeen exampleMessages (new_GitHub halfFailingMock None)
     [touchFileError, touchFileWarning] fresh)) = []"
  by (simp add: run_defs mock_defs halfFailingMock_def allSeen_def)

lemma run_half_late:
  "logs (snd (report inIssueOrder exampleMessages (new_GitHub halfFailingMock None)
     [touchFileError, touchFileWarning] fresh)) =
     [Debug ''VCS Setup'', Error ''GitHub report failed'' (Rejected ''no network'')] \<and>
   later (snd (report inIssueOrder exampleMessages (new_GitHub halfFailingMock None)
     [touchFileError, touchFileWarning] fresh)) = [Debug ''GitHub create review success'']"
  by (simp add: run_defs mock_defs halfFailingMock_def)

section \<open>The claims\<close>

subsection \<open>The value \<open>report\<close> returns\<close>

text \<open>
  C1 (amended). On every run in which every adapter call resolves, \<open>report\<close> returns
  \<open>true\<close>, whatever the total error count is: the class reports the errors through the
  commit status, not through its result.
\<close>

theorem report_returns_true:
  assumes "\<forall>c\<in>set (calls (snd (report tm mu this ls fresh))). rejection (prService this) c = None"
  shows "fst (report tm mu this ls fresh) = Inr True"
proof -
  from assms have "firstRejection (prService this) (concat (cut (prService this) (plan mu this ls))) = None"
    by (simp add: calls_report firstRejection_None_iff)
  then have "firstRejection (prService this) (concat (plan mu this ls)) = None"
    by (simp add: firstRejection_cut)
  then show ?thesis by (rule report_resolved)
qed

theorem report_returns_true_witness:
  "map (rejection (prService (new_GitHub serviceMock None)))
     (calls (snd (report inIssueOrder exampleMessages (new_GitHub serviceMock None) [touchFileError] fresh))) =
     [None, None, None, None, None] \<and>
   fst (report inIssueOrder exampleMessages (new_GitHub serviceMock None) [touchFileError] fresh) = Inr True"
proof -
  have h: "\<forall>c\<in>set (calls (snd (report inIssueOrder exampleMessages (new_GitHub serviceMock None)
        [touchFileError] fresh))).
      rejection (prService (new_GitHub serviceMock None)) c = None"
    by simp
  have m: "map (rejection (prService (new_GitHub serviceMock None)))
     (calls (snd (report inIssueOrder exampleMessages (new_GitHub serviceMock None) [touchFileError] fresh))) =
     [None, None, None, None, None]"
    by (simp add: run_one_error calls_def)
  from report_returns_true [OF h] m show ?thesis
    by simp
qed

text \<open>
  The claim as stated fails: with one error on a touched line and every call
  resolving, the total error count is 1 and \<open>report\<close> returns \<open>true\<close>.
\<close>

theorem report_polarity_counterexample:
  "map (rejection serviceMock)
     (calls (snd (report inIssueOrder exampleMessages (new_GitHub serviceMock None) [touchFileError] fresh))) =
     [None, None, None, None, None] \<and>
   \<not> (fst (report inIssueOrder exampleMessages (new_GitHub serviceMock None) [touchFileError] fresh) = Inr True
        \<longleftrightarrow> nError (snd (report inIssueOrder exampleMessages (new_GitHub serviceMock None)
              [touchFileError] fresh)) = 0)"
  by (simp add: run_one_error calls_def)

subsection \<open>The commit status\<close>

text \<open>
  C2. On every run that completes, the commit status is set once, as the last call
  of the run: to \<open>failure\<close> if the total error count is greater than zero and to
  \<open>success\<close> otherwise, with the description made from the error count. The total
  error count is the sum of the error counts of the groups made from the filtered
  findings, and that is the number of filtered findings of severity error.
\<close>

theorem commit_status_by_error_count:
  assumes run: "report tm mu this ls fresh = (Inr b, s')"
  shows "[c \<leftarrow> calls s'. phase c = 4] =
           [SetCommitStatus (commitId s') (if nError s' > 0 then failure else success)
              (generateCommitDescription mu (nError s'))] \<and>
         last (trace s') =
           [SetCommitStatus (commitId s') (if nError s' > 0 then failure else success)
              (generateCommitDescription mu (nError s'))] \<and>
         nError s' = sum_list (map errors (comments s')) \<and>
         diff (prService this) = Inr (touchedDiff s') \<and>
         comments s' = groupComments mu (touchedFileLog ls (touchedDiff s')) \<and>
         nError s' = int (length [l \<leftarrow> touchedFileLog ls (touchedDiff s'). severity l = error])"
proof -
  let ?svc = "prService this"
  from run have s': "s' = snd (report tm mu this ls fresh)" and r: "fst (report tm mu this ls fresh) = Inr b"
    by simp_all
  from r have res: "firstRejection ?svc (concat (plan mu this ls)) = None"
    by (rule report_Inr)
  then have tr: "trace s' = plan mu this ls"
    by (simp add: s' report_trace fresh_def cut_resolved)
  from res have "firstRejection ?svc (concat ([[GetLatestCommitSha], [GetDiff]] @
      (removalPlan this @ inlinePlan mu ?svc ls @ summaryPlan mu ?svc ls @ statusPlan mu ?svc ls))) = None"
    by (simp add: plan_def)
  from setup_resolved [OF this]
  have ok: "rejected (getLatestCommitSha ?svc) = None" "rejected (diff ?svc) = None"
    by simp_all
  note f = report_resolved_fields [OF ok, where tm = tm and mu = mu and ls = ls and s = fresh, folded s']
  have st: "statusPlan mu ?svc ls =
      [[SetCommitStatus (commitId s') (if nError s' > 0 then failure else success)
          (generateCommitDescription mu (nError s'))]]"
    by (simp add: statusPlan_def f(6) [symmetric] f(7) [symmetric])
  have "[c \<leftarrow> calls s'. phase c = 4] = concat (statusPlan mu ?svc ls)"
    by (simp add: calls_def tr plan_def filter_none phase_concat_removalPlan
        phase_concat_inlinePlan phase_concat_summaryPlan) (simp add: statusPlan_def)
  moreover have "last (trace s') = last (statusPlan mu ?svc ls)"
    by (simp add: tr plan_def statusPlan_def)
  moreover have "nError s' = int (length [l \<leftarrow> touchedFileLog ls (touchedDiff s'). severity l = error])"
    using f(3,4) errors_groupComments [of mu "touchedFileLog ls (touchedDiff s')"] by simp
  ultimately show ?thesis
    using f(2,3,4) by (simp add: st)
qed

theorem commit_status_by_error_count_witness:
  "fst fullRun = Inr True \<and>
   [c \<leftarrow> calls (snd fullRun). phase c = 4] = [SetCommitStatus ''sha'' failure ''errors found''] \<and>
   nError (snd fullRun) = 1"
proof -
  have a: "fst fullRun = Inr True" "commitId (snd fullRun) = ''sha''" "nError (snd fullRun) = 1"
    by (simp_all add: fullRun_def run_full)
  from commit_status_by_error_count [OF fullRun_eq]
  have "[c \<leftarrow> calls (snd fullRun). phase c = 4] =
      [SetCommitStatus (commitId (snd fullRun))
         (if nError (snd fullRun) > 0 then failure else success)
         (generateCommitDescription exampleMessages (nError (snd fullRun)))]"
    by blast
  with a show ?thesis
    by (simp add: exampleMessages_def)
qed

subsection \<open>The summary comment\<close>

text \<open>
  C3. When no adapter call before the summary step rejects, so that the step is
  reached, exactly one summary comment, with the overview message of the two counts,
  is posted if the total error count plus the total warning count is greater than
  zero, and none otherwise. The two counts are the sums over the groups made from the
  filtered findings, and their sum is the number of filtered findings. The step
  itself, in whatever state it is run, issues that one call if the sum of the two
  counts of the state is greater than zero and no call otherwise.
\<close>

theorem summary_comment_iff_findings:
  assumes run: "report tm mu this ls fresh = (r, s')"
    and ok: "\<forall>c\<in>set (calls s'). phase c < 3 \<longrightarrow> rejection (prService this) c = None"
  shows "[c \<leftarrow> calls s'. phase c = 3] =
           (if nError s' + nWarning s' > 0
            then [CreateComment (generateOverviewMessage mu (nError s') (nWarning s'))] else []) \<and>
         nError s' = sum_list (map errors (comments s')) \<and>
         nWarning s' = sum_list (map warnings (comments s')) \<and>
         diff (prService this) = Inr (touchedDiff s') \<and>
         comments s' = groupComments mu (touchedFileLog ls (touchedDiff s')) \<and>
         nError s' + nWarning s' = int (length (touchedFileLog ls (touchedDiff s'))) \<and>
         trace (snd (createSummaryComment mu this s)) =
           trace s @ (if nWarning s + nError s > 0
                      then [[CreateComment (generateOverviewMessage mu (nError s) (nWarning s))]]
                      else [])"
proof -
  let ?svc = "prService this"
  let ?P = "[[GetLatestCommitSha], [GetDiff]] @ removalPlan this @ inlinePlan mu ?svc ls"
  let ?Q = "summaryPlan mu ?svc ls @ statusPlan mu ?svc ls"
  from run have s': "s' = snd (report tm mu this ls fresh)" by simp
  have pl: "plan mu this ls = ?P @ ?Q" by (simp add: plan_def)
  have cs: "calls s' = concat (cut ?svc (?P @ ?Q))"
    by (simp add: s' calls_report pl)
  have low: "\<forall>c\<in>set (concat ?P). phase c < 3"
  proof
    fix c
    assume "c \<in> set (concat ?P)"
    then consider "c = GetLatestCommitSha" | "c = GetDiff"
      | "c \<in> set (concat (removalPlan this))" | "c \<in> set (concat (inlinePlan mu ?svc ls))"
      by auto
    then show "phase c < 3"
      by cases (simp_all add: phase_concat_removalPlan phase_concat_inlinePlan)
  qed
  from ok have "\<forall>c\<in>set (concat (cut ?svc (?P @ ?Q))). phase c < 3 \<longrightarrow> rejection ?svc c = None"
    by (simp only: cs)
  from cut_prefix_resolved [OF this low] have res: "firstRejection ?svc (concat ?P) = None" .
  then have "firstRejection ?svc (concat ([[GetLatestCommitSha], [GetDiff]] @
      (removalPlan this @ inlinePlan mu ?svc ls))) = None"
    by simp
  from setup_resolved [OF this]
  have sd: "rejected (getLatestCommitSha ?svc) = None" "rejected (diff ?svc) = None"
    by simp_all
  note f = report_resolved_fields [OF sd, where tm = tm and mu = mu and ls = ls and s = fresh, folded s']
  have "cut ?svc (?P @ ?Q) = ?P @ cut ?svc ?Q"
    by (rule cut_append_resolved [OF res])
  then have cs2: "calls s' = concat ?P @ concat (cut ?svc ?Q)"
    by (simp only: cs concat_append)
  have "\<forall>c\<in>set (concat ?P). \<not> phase c = 3"
    using low by fastforce
  then have "[c \<leftarrow> concat ?P. phase c = 3] = []"
    by (rule filter_none)
  then have 1: "[c \<leftarrow> calls s'. phase c = 3] = [c \<leftarrow> concat (cut ?svc ?Q). phase c = 3]"
    by (simp only: cs2 filter_append append_Nil)
  have 2: "[c \<leftarrow> concat (cut ?svc ?Q). phase c = 3] = concat (summaryPlan mu ?svc ls)"
    by (simp add: summaryPlan_def statusPlan_def)
  have 3: "concat (summaryPlan mu ?svc ls) =
      (if nError s' + nWarning s' > 0
       then [CreateComment (generateOverviewMessage mu (nError s') (nWarning s'))] else [])"
    by (simp add: summaryPlan_def f(7) [symmetric] f(8) [symmetric] add.commute)
  have 4: "nError s' + nWarning s' = int (length (touchedFileLog ls (touchedDiff s')))"
    using f(3,4,5) errors_groupComments [of mu "touchedFileLog ls (touchedDiff s')"]
      warnings_groupComments [of mu "touchedFileLog ls (touchedDiff s')"]
      count_touchedFileLog [of ls "touchedDiff s'"]
    by simp
  from 1 2 3 have "[c \<leftarrow> calls s'. phase c = 3] =
      (if nError s' + nWarning s' > 0
       then [CreateComment (generateOverviewMessage mu (nError s') (nWarning s'))] else [])"
    by simp
  moreover have "trace (snd (createSummaryComment mu this s)) =
      trace s @ (if nWarning s + nError s > 0
                 then [[CreateComment (generateOverviewMessage mu (nError s) (nWarning s))]]
                 else [])"
    by (simp add: createSummaryComment_def Let_def split: sum.splits)
  ultimately show ?thesis
    using f(2,3,4,5) 4 by blast
qed

theorem summary_comment_iff_findings_witness:
  "list_all (\<lambda>c. rejection (prService (new_GitHub serviceMock (Some True))) c = None)
     (calls (snd fullRun)) \<and>
   [c \<leftarrow> calls (snd fullRun). phase c = 3] = [CreateComment ''overview''] \<and>
   nError (snd fullRun) + nWarning (snd fullRun) = 2"
proof -
  have h: "\<forall>c\<in>set (calls (snd fullRun)). phase c < 3 \<longrightarrow>
      rejection (prService (new_GitHub serviceMock (Some True))) c = None"
    by simp
  have n: "nError (snd fullRun) = 1" "nWarning (snd fullRun) = 1"
    by (simp_all add: fullRun_def run_full)
  from summary_comment_iff_findings [OF fullRun_eq h]
  have "[c \<leftarrow> calls (snd fullRun). phase c = 3] =
      (if nError (snd fullRun) + nWarning (snd fullRun) > 0
       then [CreateComment (generateOverviewMessage exampleMessages (nError (snd fullRun))
          (nWarning (snd fullRun)))] else [])"
    by blast
  with n show ?thesis
    by (simp add: list_all_iff exampleMessages_def)
qed

subsection \<open>The filter stage\<close>

text \<open>
  C4. The filter stage of \<open>setup\<close> retains a finding if and only if its severity is
  error or warning and some entry of the diff has its file and holds its line among
  the changed lines; the order of the findings is kept; an empty diff leaves nothing;
  and the comments of a run whose two reads resolve are the groups of the findings
  retained for the fetched diff.
\<close>

theorem filter_stage_retains:
  "touchedFileLog ls d =
     [l \<leftarrow> ls. (severity l = error \<or> severity l = warning) \<and>
                (\<exists>e\<in>set d. file_d e = source l \<and> line l \<in> changedLines e)] \<and>
   touchedFileLog ls [] = [] \<and>
   (getLatestCommitSha (prService this) = Inr sha \<and> diff (prService this) = Inr d \<longrightarrow>
      comments (snd (setup_gh mu this ls s)) = groupComments mu (touchedFileLog ls d))"
proof -
  have "touchedFileLog ls d =
     [l \<leftarrow> ls. (severity l = error \<or> severity l = warning) \<and>
                (\<exists>e\<in>set d. file_d e = source l \<and> line l \<in> changedLines e)]"
    by (simp add: touchedFileLog_def onlySeverity_def onlyIn_iff conj_commute)
  moreover have "touchedFileLog ls [] = []"
    by (simp add: touchedFileLog_def onlyIn_def)
  moreover have "comments (snd (setup_gh mu this ls s)) = groupComments mu (touchedFileLog ls d)"
    if "getLatestCommitSha (prService this) = Inr sha" "diff (prService this) = Inr d"
    using that by (simp add: setup_gh_def Let_def)
  ultimately show ?thesis by blast
qed

theorem filter_stage_retains_witness:
  "touchedFileLog [touchFileError, touchFileInfo, touchFileWarning, untouchedError, untouchedWarning]
     [mockTouchDiff] = [touchFileError, touchFileWarning] \<and>
   touchedFileLog [touchFileError, touchFileInfo, touchFileWarning, untouchedError, untouchedWarning]
     [] = [] \<and>
   comments (snd (setup_gh exampleMessages (new_GitHub serviceMock None)
     [touchFileError, touchFileInfo, touchFileWarning, untouchedError, untouchedWarning] fresh)) =
     groupComments exampleMessages [touchFileError, touchFileWarning]"
proof -
  have t: "[l \<leftarrow> [touchFileError, touchFileInfo, touchFileWarning, untouchedError, untouchedWarning].
      (severity l = error \<or> severity l = warning) \<and>
      (\<exists>e\<in>set [mockTouchDiff]. file_d e = source l \<and> line l \<in> changedLines e)] =
      [touchFileError, touchFileWarning]"
    by (simp add: mock_defs touchFileInfo_def)
  from filter_stage_retains [of
      "[touchFileError, touchFileInfo, touchFileWarning, untouchedError, untouchedWarning]"
      "[mockTouchDiff]" "new_GitHub serviceMock None" "''sha''" exampleMessages fresh] t
  show ?thesis
    by (simp add: touchedFileLog_def onlyIn_def)
qed

subsection \<open>The removal of old comments\<close>



subsection \<open>Rejections\<close>

text \<open>
  C6. If an adapter call issued during \<open>report\<close> rejects, the run ends with a
  rejection, whatever the order in which the promises settle: the result is the
  rejection, unchanged, of a call of the last batch issued, namely of the one that is
  the first to reject in the order of settling (so it is the rejection of the given
  call when no call of that batch rejects otherwise); every batch before it had
  resolved, so the rejected call is in the last batch and nothing is issued after it,
  neither a later step nor a second attempt; no call of a later phase occurs; and
  when \<open>report\<close> settles the last line of the log is the error line with the same
  error.
\<close>

theorem rejection_propagates:
  assumes c: "c \<in> set (calls (snd (report tm mu this ls fresh)))"
    and rej: "rejection (prService this) c \<noteq> None"
  shows "\<exists>e. fst (report tm mu this ls fresh) = Inl e \<and>
           trace (snd (report tm mu this ls fresh)) \<noteq> [] \<and>
           c \<in> set (last (trace (snd (report tm mu this ls fresh)))) \<and>
           raceRejection tm (prService this) (last (trace (snd (report tm mu this ls fresh)))) = Some e \<and>
           (\<exists>c'\<in>set (last (trace (snd (report tm mu this ls fresh)))).
              rejection (prService this) c' = Some e) \<and>
           ((\<forall>c'\<in>set (last (trace (snd (report tm mu this ls fresh)))).
               rejection (prService this) c' = None \<or>
               rejection (prService this) c' = rejection (prService this) c) \<longrightarrow>
              rejection (prService this) c = Some e) \<and>
           (\<forall>b\<in>set (butlast (trace (snd (report tm mu this ls fresh)))). \<forall>c'\<in>set b.
              rejection (prService this) c' = None) \<and>
           (\<forall>c'\<in>set (calls (snd (report tm mu this ls fresh))). phase c' \<le> phase c) \<and>
           last (logs (snd (report tm mu this ls fresh))) = Error ''GitHub report failed'' e"
proof -
  let ?svc = "prService this"
  let ?T = "trace (snd (report tm mu this ls fresh))"
  have tr: "?T = cut ?svc (plan mu this ls)"
    by (simp add: report_trace fresh_def)
  from c rej have "firstRejection ?svc (concat (cut ?svc (plan mu this ls))) \<noteq> None"
    by (auto simp: calls_report firstRejection_None_iff)
  then have "firstRejection ?svc (concat (plan mu this ls)) \<noteq> None"
    by (simp add: firstRejection_cut)
  then have "settled tm ?svc (plan mu this ls) \<noteq> None"
    by (simp only: settled_None_iff not_False_eq_True)
  then obtain e where e: "settled tm ?svc (plan mu this ls) = Some e"
    by auto
  then have res: "fst (report tm mu this ls fresh) = Inl e"
    by (simp add: report_fst)
  from settled_last [OF e] have ne: "?T \<noteq> []" and lst: "raceRejection tm ?svc (last ?T) = Some e"
    by (simp_all add: tr)
  from raceRejection_Some [OF lst]
  have some: "\<exists>c'\<in>set (last ?T). rejection ?svc c' = Some e" .
  have early: "rejection ?svc c' = None" if "b \<in> set (butlast ?T)" "c' \<in> set b" for b c'
  proof -
    from that(1) have "firstRejection ?svc b = None"
      by (simp add: tr cut_butlast)
    with that(2) show ?thesis by (simp add: firstRejection_None_iff)
  qed
  from ne have split: "?T = butlast ?T @ [last ?T]" by simp
  from c obtain b where b: "b \<in> set ?T" "c \<in> set b"
    by (auto simp: calls_def)
  have cl: "c \<in> set (last ?T)"
  proof (rule ccontr)
    assume n: "c \<notin> set (last ?T)"
    from b split have "b \<in> set (butlast ?T) \<or> b = last ?T"
      by (metis Un_iff insert_iff list.set(2) set_append empty_iff list.set(1))
    with n b have "b \<in> set (butlast ?T)" by auto
    then have "rejection ?svc c = None" using b(2) by (rule early)
    with rej show False by simp
  qed
  have srt: "sorted (map phase (concat ?T))"
    by (simp add: tr cut_sorted plan_sorted)
  have lastplan: "last ?T \<in> set (plan mu this ls)"
    using ne cut_subset [of ?svc "plan mu this ls"] last_in_set [OF ne] by (auto simp: tr)
  have bound: "phase c' \<le> phase c" if "c' \<in> set (calls (snd (report tm mu this ls fresh)))" for c'
  proof -
    from that have "c' \<in> set (concat (butlast ?T @ [last ?T]))"
      using split by (simp add: calls_def)
    then have "c' \<in> set (concat (butlast ?T)) \<or> c' \<in> set (last ?T)"
      by auto
    then show ?thesis
    proof
      assume a: "c' \<in> set (concat (butlast ?T))"
      from srt split have "sorted (map phase (concat (butlast ?T) @ last ?T))"
        by (metis concat_append concat.simps(2) concat.simps(1) append_Nil2)
      with a cl show ?thesis
        by (auto simp: sorted_append)
    next
      assume "c' \<in> set (last ?T)"
      with plan_one_phase [OF lastplan this cl] show ?thesis by simp
    qed
  qed
  have only: "rejection ?svc c = Some e"
    if "\<forall>c'\<in>set (last ?T). rejection ?svc c' = None \<or> rejection ?svc c' = rejection ?svc c"
    using that some by auto
  from res ne cl lst some only early bound report_logs [OF res] show ?thesis
    by blast
qed

theorem rejection_propagates_witness:
  "CreateReviewComment ''sha'' ''e1'' ''a.ts'' 10 \<in>
     set (calls (snd (report secondFirst exampleMessages (new_GitHub racingMock None)
       [touchFileError, touchFileWarning] fresh))) \<and>
   rejection (prService (new_GitHub racingMock None))
     (CreateReviewComment ''sha'' ''e1'' ''a.ts'' 10) = Some (Rejected ''slow'') \<and>
   fst (report secondFirst exampleMessages (new_GitHub racingMock None)
       [touchFileError, touchFileWarning] fresh) = Inl (Rejected ''fast'') \<and>
   raceRejection secondFirst (prService (new_GitHub racingMock None))
     (last (trace (snd (report secondFirst exampleMessages (new_GitHub racingMock None)
       [touchFileError, touchFileWarning] fresh)))) = Some (Rejected ''fast'') \<and>
   last (logs (snd (report secondFirst exampleMessages (new_GitHub racingMock None)
       [touchFileError, touchFileWarning] fresh))) =
     Error ''GitHub report failed'' (Rejected ''fast'')"
proof -
  have h1: "CreateReviewComment ''sha'' ''e1'' ''a.ts'' 10 \<in>
     set (calls (snd (report secondFirst exampleMessages (new_GitHub racingMock None)
       [touchFileError, touchFileWarning] fresh)))"
    by (simp add: run_racing calls_def)
  have h2: "rejection (prService (new_GitHub racingMock None))
     (CreateReviewComment ''sha'' ''e1'' ''a.ts'' 10) = Some (Rejected ''slow'')"
    by (simp add: racingMock_def)
  then have h3: "rejection (prService (new_GitHub racingMock None))
     (CreateReviewComment ''sha'' ''e1'' ''a.ts'' 10) \<noteq> None"
    by simp
  have r: "fst (report secondFirst exampleMessages (new_GitHub racingMock None)
       [touchFileError, touchFileWarning] fresh) = Inl (Rejected ''fast'')"
    by (simp add: run_racing)
  from rejection_propagates [OF h1 h3] r
  have "raceRejection secondFirst (prService (new_GitHub racingMock None))
     (last (trace (snd (report secondFirst exampleMessages (new_GitHub racingMock None)
       [touchFileError, touchFileWarning] fresh)))) = Some (Rejected ''fast'')"
    and "last (logs (snd (report secondFirst exampleMessages (new_GitHub racingMock None)
       [touchFileError, touchFileWarning] fresh))) =
     Error ''GitHub report failed'' (Rejected ''fast'')"
    by auto
  with h1 h2 r show ?thesis by blast
qed

subsection \<open>Nothing to report\<close>

text \<open>
  C7. When the findings all filter to nothing for the fetched diff, as the empty list
  of findings does, no inline comment and no summary comment is posted; if
  \<open>removeOldComment\<close> is true the three reads of the removal step are still issued
  and, when they resolve, so are the deletes of the comments of the current user;
  and when every call resolves the run returns \<open>true\<close> and ends with the commit status
  set to \<open>success\<close>, with the description of zero errors.
\<close>

theorem nothing_to_report:
  assumes sha: "getLatestCommitSha (prService this) = Inr sha"
    and d: "diff (prService this) = Inr d"
    and empty: "touchedFileLog ls d = []"
    and run: "report tm mu this ls fresh = (r, s')"
  shows "touchedFileLog [] d = [] \<and>
         [c \<leftarrow> calls s'. phase c = 2 \<or> phase c = 3] = [] \<and>
         (removeOldComment this \<longrightarrow>
            [GetCurrentUserId, ListAllComments, ListAllReviewComments] \<in> set (trace s') \<and>
            (getCurrentUserId (prService this) = Inr uid \<and> listAllComments (prService this) = Inr cs \<and>
             listAllReviewComments (prService this) = Inr rs \<longrightarrow>
               [c \<leftarrow> calls s'. isDelete c] =
                 map (\<lambda>c. DeleteComment (comment_id c)) (filter (authoredBy uid) cs) @
                 map (\<lambda>r. DeleteReviewComment (comment_id r)) (filter (authoredBy uid) rs))) \<and>
         ((\<forall>c\<in>set (calls s'). rejection (prService this) c = None) \<longrightarrow>
            r = Inr True \<and>
            [c \<leftarrow> calls s'. phase c = 4] =
              [SetCommitStatus sha success (generateCommitDescription mu 0)] \<and>
            last (trace s') = [SetCommitStatus sha success (generateCommitDescription mu 0)])"
proof -
  let ?svc = "prService this"
  from run have s': "s' = snd (report tm mu this ls fresh)" and r: "r = fst (report tm mu this ls fresh)"
    by simp_all
  have cm: "commentsOf mu ?svc ls = []"
    using d empty by (simp add: commentsOf_def diffOf_def groupComments_def)
  then have n: "nErrorOf mu ?svc ls = 0" "nWarningOf mu ?svc ls = 0"
    by (simp_all add: nErrorOf_def nWarningOf_def)
  have ip: "inlinePlan mu ?svc ls = [[]]" and sp: "summaryPlan mu ?svc ls = []"
    and tp: "statusPlan mu ?svc ls = [[SetCommitStatus sha success (generateCommitDescription mu 0)]]"
    using sha by (simp_all add: inlinePlan_def summaryPlan_def statusPlan_def cm n shaOf_def)
  have pl: "plan mu this ls = [[GetLatestCommitSha], [GetDiff]] @ removalPlan this @ [[]] @
      [[SetCommitStatus sha success (generateCommitDescription mu 0)]]"
    by (simp add: plan_def ip sp tp)
  have "\<forall>c\<in>set (concat (plan mu this ls)). \<not> (phase c = 2 \<or> phase c = 3)"
  proof
    fix c
    assume "c \<in> set (concat (plan mu this ls))"
    then consider "c = GetLatestCommitSha" | "c = GetDiff" | "c \<in> set (concat (removalPlan this))"
      | "c = SetCommitStatus sha success (generateCommitDescription mu 0)"
      by (auto simp: pl)
    then show "\<not> (phase c = 2 \<or> phase c = 3)"
      by cases (simp_all add: phase_concat_removalPlan)
  qed
  then have 1: "[c \<leftarrow> calls s'. phase c = 2 \<or> phase c = 3] = []"
    unfolding s' calls_report by (rule filter_cut_none)
  have 2: "[GetCurrentUserId, ListAllComments, ListAllReviewComments] \<in> set (trace s')"
    if "removeOldComment this"
    unfolding s' by (rule removal_issued [OF that sha d])
  have 3: "[c \<leftarrow> calls s'. isDelete c] =
      map (\<lambda>c. DeleteComment (comment_id c)) (filter (authoredBy uid) cs) @
      map (\<lambda>r. DeleteReviewComment (comment_id r)) (filter (authoredBy uid) rs)"
    if "removeOldComment this" "getCurrentUserId ?svc = Inr uid" "listAllComments ?svc = Inr cs"
      "listAllReviewComments ?svc = Inr rs"
    unfolding s' using deletes_issued [OF that(1) sha d that(2,3,4), where tm = tm and mu = mu and ls = ls]
    by (simp add: deleteCalls_def)
  have 4: "r = Inr True \<and>
      [c \<leftarrow> calls s'. phase c = 4] = [SetCommitStatus sha success (generateCommitDescription mu 0)] \<and>
      last (trace s') = [SetCommitStatus sha success (generateCommitDescription mu 0)]"
    if ok: "\<forall>c\<in>set (calls s'). rejection ?svc c = None"
  proof -
    from ok have "firstRejection ?svc (concat (cut ?svc (plan mu this ls))) = None"
      by (simp add: s' calls_report firstRejection_None_iff)
    then have res: "firstRejection ?svc (concat (plan mu this ls)) = None"
      by (simp add: firstRejection_cut)
    then have tr: "trace s' = plan mu this ls"
      by (simp add: s' report_trace fresh_def cut_resolved)
    from res have "r = Inr True"
      unfolding r by (rule report_resolved)
    moreover have "[c \<leftarrow> calls s'. phase c = 4] =
        [SetCommitStatus sha success (generateCommitDescription mu 0)]"
      by (simp add: calls_def tr pl filter_none phase_concat_removalPlan)
    moreover have "last (trace s') = [SetCommitStatus sha success (generateCommitDescription mu 0)]"
      by (simp add: tr pl)
    ultimately show ?thesis by blast
  qed
  have 0: "touchedFileLog [] d = []"
    by (simp add: touchedFileLog_def)
  from 0 1 2 3 4 show ?thesis by blast
qed

theorem nothing_to_report_witness:
  "touchedFileLog [untouchedError, untouchedWarning] [mockTouchDiff] = [] \<and>
   [c \<leftarrow> calls (snd quietRun). phase c = 2 \<or> phase c = 3] = [] \<and>
   [c \<leftarrow> calls (snd quietRun). isDelete c] =
     [DeleteComment 1, DeleteComment 2, DeleteReviewComment 5] \<and>
   last (trace (snd quietRun)) = [SetCommitStatus ''sha'' success ''no error'']"
proof -
  have sha: "getLatestCommitSha (prService (new_GitHub serviceMock (Some True))) = Inr ''sha''"
    and d: "diff (prService (new_GitHub serviceMock (Some True))) = Inr [mockTouchDiff]"
    by simp_all
  have e: "touchedFileLog [untouchedError, untouchedWarning] [mockTouchDiff] = []"
    by (simp add: touchedFileLog_def onlyIn_def onlySeverity_def mock_defs)
  from nothing_to_report [OF sha d e quietRun_eq, where uid = 7 and cs = mockComments and rs = mockReviews] e
  show ?thesis
    by (simp add: new_GitHub_def mockComments_def mockReviews_def authoredBy_def exampleMessages_def)
qed

subsection \<open>The order of the phases\<close>

text \<open>
  C8. Within one run the phases come strictly one after the other: the calls are
  issued in the order setup, removal of old comments, inline comments, summary
  comment, commit status; no batch of calls awaited together mixes two phases; and
  every batch but the last has resolved in full, so a batch is issued only when all
  batches before it are complete.
\<close>

theorem report_phases_in_sequence:
  "sorted (map phase (calls (snd (report tm mu this ls fresh)))) \<and>
   (\<forall>b\<in>set (trace (snd (report tm mu this ls fresh))). \<forall>c\<in>set b. \<forall>c'\<in>set b. phase c = phase c') \<and>
   (\<forall>b\<in>set (butlast (trace (snd (report tm mu this ls fresh)))). \<forall>c\<in>set b.
      rejection (prService this) c = None)"
proof -
  let ?svc = "prService this"
  have tr: "trace (snd (report tm mu this ls fresh)) = cut ?svc (plan mu this ls)"
    by (simp add: report_trace fresh_def)
  have 1: "sorted (map phase (calls (snd (report tm mu this ls fresh))))"
    by (simp add: calls_report cut_sorted plan_sorted)
  have 2: "phase c = phase c'"
    if "b \<in> set (trace (snd (report tm mu this ls fresh)))" "c \<in> set b" "c' \<in> set b" for b c c'
  proof -
    from that(1) have "b \<in> set (plan mu this ls)"
      using cut_subset [of ?svc "plan mu this ls"] by (auto simp: tr)
    then show ?thesis using that(2,3) by (rule plan_one_phase)
  qed
  have 3: "rejection ?svc c = None"
    if "b \<in> set (butlast (trace (snd (report tm mu this ls fresh))))" "c \<in> set b" for b c
  proof -
    from that(1) have "firstRejection ?svc b = None"
      by (simp add: tr cut_butlast)
    with that(2) show ?thesis by (simp add: firstRejection_None_iff)
  qed
  from 1 2 3 show ?thesis by blast
qed

theorem report_phases_in_sequence_witness:
  "trace (snd (report inIssueOrder exampleMessages (new_GitHub serviceMock (Some True))
      [touchFileError, touchFileWarning, untouchedError, untouchedWarning] fresh)) =
     [[GetLatestCommitSha], [GetDiff],
      [GetCurrentUserId, ListAllComments, ListAllReviewComments],
      [DeleteComment 1, DeleteComment 2, DeleteReviewComment 5],
      [CreateReviewComment ''sha'' ''e1'' ''a.ts'' 10,
       CreateReviewComment ''sha'' ''w1'' ''a.ts'' 11],
      [CreateComment ''overview''],
      [SetCommitStatus ''sha'' failure ''errors found'']] \<and>
   sorted (map phase (calls (snd (report inIssueOrder exampleMessages (new_GitHub serviceMock (Some True))
      [touchFileError, touchFileWarning, untouchedError, untouchedWarning] fresh)))) \<and>
   list_all (\<lambda>b. list_all (\<lambda>c. list_all (\<lambda>c'. phase c = phase c') b) b)
     (trace (snd (report inIssueOrder exampleMessages (new_GitHub serviceMock (Some True))
        [touchFileError, touchFileWarning, untouchedError, untouchedWarning] fresh))) \<and>
   list_all (list_all (\<lambda>c. rejection (prService (new_GitHub serviceMock (Some True))) c = None))
     (butlast (trace (snd (report inIssueOrder exampleMessages (new_GitHub serviceMock (Some True))
        [touchFileError, touchFileWarning, untouchedError, untouchedWarning] fresh))))"
proof -
  have tr: "trace (snd (report inIssueOrder exampleMessages (new_GitHub serviceMock (Some True))
      [touchFileError, touchFileWarning, untouchedError, untouchedWarning] fresh)) =
     [[GetLatestCommitSha], [GetDiff],
      [GetCurrentUserId, ListAllComments, ListAllReviewComments],
      [DeleteComment 1, DeleteComment 2, DeleteReviewComment 5],
      [CreateReviewComment ''sha'' ''e1'' ''a.ts'' 10,
       CreateReviewComment ''sha'' ''w1'' ''a.ts'' 11],
      [CreateComment ''overview''],
      [SetCommitStatus ''sha'' failure ''errors found'']]"
    by (simp add: run_full)
  from report_phases_in_sequence [where tm = inIssueOrder and mu = exampleMessages
      and this = "new_GitHub serviceMock (Some True)"
      and ls = "[touchFileError, touchFileWarning, untouchedError, untouchedWarning]"] tr
  show ?thesis unfolding list_all_iff by blast
qed

subsection \<open>Comments without an author\<close>

text \<open>
  C9. A comment whose \<open>user\<close> is absent is not taken for a comment of the current
  user, whatever the id of the current user is; so when every listed comment with a
  given id has no \<open>user\<close>, no \<open>deleteComment\<close> for that id is ever issued, and the same
  holds of the listed reviews and \<open>deleteReviewComment\<close>.
\<close>

theorem absent_author_never_deleted:
  assumes run: "report tm mu this ls fresh = (r, s')"
  shows "\<not> authoredBy userId (c\<lparr>user := None\<rparr>) \<and>
         ((\<forall>cs. listAllComments (prService this) = Inr cs \<longrightarrow>
             (\<forall>c\<in>set cs. comment_id c = i \<longrightarrow> user c = None)) \<longrightarrow>
            DeleteComment i \<notin> set (calls s')) \<and>
         ((\<forall>rs. listAllReviewComments (prService this) = Inr rs \<longrightarrow>
             (\<forall>c\<in>set rs. comment_id c = i \<longrightarrow> user c = None)) \<longrightarrow>
            DeleteReviewComment i \<notin> set (calls s'))"
proof -
  let ?svc = "prService this"
  from run have s': "s' = snd (report tm mu this ls fresh)" by simp
  have sub: "set (calls s') \<subseteq> set (concat (plan mu this ls))"
    unfolding s' calls_report by (rule cut_concat_subset)
  have 1: "\<not> authoredBy userId (c\<lparr>user := None\<rparr>)"
    by (simp add: authoredBy_def)
  have 2: "DeleteComment i \<notin> set (calls s')"
    if h: "\<forall>cs. listAllComments ?svc = Inr cs \<longrightarrow> (\<forall>c\<in>set cs. comment_id c = i \<longrightarrow> user c = None)"
  proof
    assume "DeleteComment i \<in> set (calls s')"
    with sub have "DeleteComment i \<in> set (concat (plan mu this ls))"
      by blast
    then have "DeleteComment i \<in> set (plannedDeletes ?svc)"
      by (rule delete_in_plan) simp
    then obtain uid cs rs where cs: "listAllComments ?svc = Inr cs"
      and "DeleteComment i \<in> set (deleteCalls uid cs rs)"
      by (rule plannedDeletes_cases)
    then obtain c where "c \<in> set cs" "comment_id c = i" "authoredBy uid c"
      by (auto simp: deleteCalls_def)
    with h cs show False
      by (auto simp: authoredBy_def)
  qed
  have 3: "DeleteReviewComment i \<notin> set (calls s')"
    if h: "\<forall>rs. listAllReviewComments ?svc = Inr rs \<longrightarrow> (\<forall>c\<in>set rs. comment_id c = i \<longrightarrow> user c = None)"
  proof
    assume "DeleteReviewComment i \<in> set (calls s')"
    with sub have "DeleteReviewComment i \<in> set (concat (plan mu this ls))"
      by blast
    then have "DeleteReviewComment i \<in> set (plannedDeletes ?svc)"
      by (rule delete_in_plan) simp
    then obtain uid cs rs where rs: "listAllReviewComments ?svc = Inr rs"
      and "DeleteReviewComment i \<in> set (deleteCalls uid cs rs)"
      by (rule plannedDeletes_cases)
    then obtain c where "c \<in> set rs" "comment_id c = i" "authoredBy uid c"
      by (auto simp: deleteCalls_def)
    with h rs show False
      by (auto simp: authoredBy_def)
  qed
  from 1 2 3 show ?thesis by blast
qed

theorem absent_author_never_deleted_witness:
  "map user [c \<leftarrow> mockComments. comment_id c = 4] = [None] \<and>
   DeleteComment 4 \<notin> set (calls (snd fullRun)) \<and>
   map user [c \<leftarrow> mockReviews. comment_id c = 6] = [None] \<and>
   DeleteReviewComment 6 \<notin> set (calls (snd fullRun))"
proof -
  have c: "\<forall>cs. listAllComments (prService (new_GitHub serviceMock (Some True))) = Inr cs \<longrightarrow>
      (\<forall>c\<in>set cs. comment_id c = 4 \<longrightarrow> user c = None)"
    by (simp add: mockComments_def)
  have r: "\<forall>rs. listAllReviewComments (prService (new_GitHub serviceMock (Some True))) = Inr rs \<longrightarrow>
      (\<forall>c\<in>set rs. comment_id c = 6 \<longrightarrow> user c = None)"
    by (simp add: mockReviews_def)
  from absent_author_never_deleted [OF fullRun_eq, where i = 4] c
  have 1: "DeleteComment 4 \<notin> set (calls (snd fullRun))" by blast
  from absent_author_never_deleted [OF fullRun_eq, where i = 6] r
  have 2: "DeleteReviewComment 6 \<notin> set (calls (snd fullRun))" by blast
  from 1 2 show ?thesis
    by (simp add: mockComments_def mockReviews_def)
qed

subsection \<open>Comments made by the system\<close>

text \<open>
  C10. The removal step takes no account of a flag for comments made by the system:
  whether a comment counts as one of the current user does not depend on the flag,
  and in a run that reaches the deletes every listed comment and every listed review
  whose author has the id of the current user gets its delete issued, a comment
  flagged as made by the system included.
\<close>

theorem own_comments_deleted_whatever_flag:
  assumes flag: "removeOldComment this"
    and sha: "getLatestCommitSha (prService this) = Inr sha"
    and d: "diff (prService this) = Inr d"
    and uid: "getCurrentUserId (prService this) = Inr uid"
    and cs: "listAllComments (prService this) = Inr cs"
    and rs: "listAllReviewComments (prService this) = Inr rs"
    and own: "user c = Some u" "user_id u = uid"
    and run: "report tm mu this ls fresh = (r, s')"
  shows "authoredBy uid (c\<lparr>isSystemGenerated := g\<rparr>) \<and>
         (c \<in> set cs \<longrightarrow> DeleteComment (comment_id c) \<in> set (calls s')) \<and>
         (c \<in> set rs \<longrightarrow> DeleteReviewComment (comment_id c) \<in> set (calls s'))"
proof -
  from run have s': "s' = snd (report tm mu this ls fresh)" by simp
  have del: "filter isDelete (calls s') = deleteCalls uid cs rs"
    unfolding s' by (rule deletes_issued [OF flag sha d uid cs rs])
  from own have a: "authoredBy uid c" and 1: "authoredBy uid (c\<lparr>isSystemGenerated := g\<rparr>)"
    by (simp_all add: authoredBy_def)
  have 2: "DeleteComment (comment_id c) \<in> set (calls s')" if "c \<in> set cs"
  proof -
    from that a have "DeleteComment (comment_id c) \<in> set (deleteCalls uid cs rs)"
      by (auto simp: deleteCalls_def)
    then have "DeleteComment (comment_id c) \<in> set (filter isDelete (calls s'))"
      by (simp only: del)
    then show ?thesis by simp
  qed
  have 3: "DeleteReviewComment (comment_id c) \<in> set (calls s')" if "c \<in> set rs"
  proof -
    from that a have "DeleteReviewComment (comment_id c) \<in> set (deleteCalls uid cs rs)"
      by (auto simp: deleteCalls_def)
    then have "DeleteReviewComment (comment_id c) \<in> set (filter isDelete (calls s'))"
      by (simp only: del)
    then show ?thesis by simp
  qed
  from 1 2 3 show ?thesis by blast
qed

theorem own_comments_deleted_whatever_flag_witness:
  "isSystemGenerated (hd mockComments) = Some True \<and>
   hd mockComments \<in> set mockComments \<and>
   DeleteComment (comment_id (hd mockComments)) \<in> set (calls (snd fullRun)) \<and>
   comment_id (hd mockComments) = 1"
proof -
  have flag: "removeOldComment (new_GitHub serviceMock (Some True))"
    by (simp add: new_GitHub_def)
  have sha: "getLatestCommitSha (prService (new_GitHub serviceMock (Some True))) = Inr ''sha''"
    and d: "diff (prService (new_GitHub serviceMock (Some True))) = Inr [mockTouchDiff]"
    and uid: "getCurrentUserId (prService (new_GitHub serviceMock (Some True))) = Inr 7"
    and cs: "listAllComments (prService (new_GitHub serviceMock (Some True))) = Inr mockComments"
    and rs: "listAllReviewComments (prService (new_GitHub serviceMock (Some True))) = Inr mockReviews"
    by simp_all
  have own: "user (hd mockComments) = Some \<lparr>user_id = 7\<rparr>" "user_id \<lparr>user_id = 7\<rparr> = 7"
    by (simp_all add: mockComments_def)
  have m: "hd mockComments \<in> set mockComments"
    by (simp add: mockComments_def)
  from own_comments_deleted_whatever_flag [OF flag sha d uid cs rs own fullRun_eq] m
  show ?thesis
    by (simp add: mockComments_def)
qed

end
